theory Spec2Isabelle
  imports Main "HOL-Library.AList" "HOL-Library.Log_Nat"
begin

section \<open>Python values used by the plotter\<close>

text \<open>
  The model follows \<^verbatim>\<open>src/SerialPlotterTUI.py\<close>. The other two files are variants of
  the same tool: \<^verbatim>\<open>serial_plotter_tui.py\<close> has the same parser, and
  \<^verbatim>\<open>serial_plotter.py\<close> has the same parser but for the synthetic channel names,
  which start with \<^verbatim>\<open>Kanal_\<close> there and with \<^verbatim>\<open>CH\<close> in the two TUI files.

  A Python \<^verbatim>\<open>str\<close> is a sequence of Unicode code points, so it is a list of
  integers; \<open>str\<close> turns a literal of this theory into one. A Python
  \<^verbatim>\<open>dict\<close> keeps insertion order, so it is an association list with distinct keys:
  \<open>map_of\<close> looks a key up and \<open>AList.update\<close> is \<^verbatim>\<open>d[k] = v\<close> (the value is
  replaced in place, a new key goes to the end).
\<close>

type_synonym pystr = "int list"

definition str :: "string \<Rightarrow> pystr" where
  "str s = map of_char s"

datatype error = ValueError | OverflowError

text \<open>
  A Python \<^verbatim>\<open>float\<close>: a finite double is a sign and the magnitude it holds
  exactly; the other values are the two infinities and NaN.
\<close>

datatype pyfloat = Finite bool rat | Infinite bool | NaN

type_synonym batch = "(pystr \<times> pyfloat) list"

subsection \<open>collections.deque with a maximum length\<close>

record 'a deque =
  maxlen :: nat
  items :: "'a list"

text \<open>\<^verbatim>\<open>deque(maxlen=n)\<close> converts \<open>n\<close> to a C \<^verbatim>\<open>ssize_t\<close> (64 bits) and raises
  OverflowError when it does not fit; then it raises ValueError for a negative \<open>n\<close>.\<close>

definition deque_new :: "int \<Rightarrow> error + 'a deque" where
  "deque_new n =
     (if n < - (2 ^ 63) \<or> 2 ^ 63 \<le> n then Inl OverflowError
      else if n < 0 then Inl ValueError
      else Inr \<lparr>maxlen = nat n, items = []\<rparr>)"

text \<open>\<^verbatim>\<open>d.append(x)\<close>: the item goes to the right end, then the left end is
  popped when the deque is longer than its maximum.\<close>

definition deque_append :: "'a \<Rightarrow> 'a deque \<Rightarrow> 'a deque" where
  "deque_append x d =
     (let ys = items d @ [x]
      in d\<lparr>items := (if maxlen d < length ys then tl ys else ys)\<rparr>)"

section \<open>The series store: PlotextGraph\<close>

type_synonym series = "(pystr \<times> pyfloat option deque) list"

record graph =
  max_points :: int
  data_series :: series
  timestamps :: "int deque"
  sample_count :: int

text \<open>\<^verbatim>\<open>PlotextGraph.__init__\<close>: the only statement that can raise is the
  construction of the \<^verbatim>\<open>timestamps\<close> deque.\<close>

definition PlotextGraph_init :: "int \<Rightarrow> error + graph" where
  "PlotextGraph_init mp =
     (case deque_new mp of
        Inl e \<Rightarrow> Inl e
      | Inr ts \<Rightarrow> Inr \<lparr>max_points = mp, data_series = [], timestamps = ts, sample_count = 0\<rparr>)"

text \<open>The first loop of \<^verbatim>\<open>add_values\<close>: every label of the batch gets its value
  appended, an unseen label gets a fresh deque first.\<close>

fun add_present :: "int \<Rightarrow> batch \<Rightarrow> series \<Rightarrow> error + series" where
  "add_present mp [] ds = Inr ds"
| "add_present mp ((label, v) # rest) ds =
     (case map_of ds label of
        None \<Rightarrow>
          (case deque_new mp of
             Inl e \<Rightarrow> Inl e
           | Inr d \<Rightarrow> add_present mp rest (AList.update label (deque_append (Some v) d) ds))
      | Some d \<Rightarrow> add_present mp rest (AList.update label (deque_append (Some v) d) ds))"

text \<open>The second loop: every tracked label that the batch lacks gets \<^verbatim>\<open>None\<close>.\<close>

definition fill_missing :: "batch \<Rightarrow> series \<Rightarrow> series" where
  "fill_missing vals ds =
     map (\<lambda>(label, d). if map_of vals label = None then (label, deque_append None d)
                        else (label, d)) ds"

definition add_values :: "batch \<Rightarrow> graph \<Rightarrow> error + graph" where
  "add_values vals g =
     (let n = sample_count g + 1;
          ts = deque_append n (timestamps g)
      in case add_present (max_points g) vals (data_series g) of
           Inl e \<Rightarrow> Inl e
         | Inr ds \<Rightarrow>
             Inr (g\<lparr>sample_count := n, timestamps := ts,
                    data_series := fill_missing vals ds\<rparr>))"

text \<open>A sequence of batches applied to the store, one \<^verbatim>\<open>add_values\<close> call each.\<close>

fun add_all :: "batch list \<Rightarrow> graph \<Rightarrow> error + graph" where
  "add_all [] g = Inr g"
| "add_all (b # bs) g =
     (case add_values b g of Inl e \<Rightarrow> Inl e | Inr g' \<Rightarrow> add_all bs g')"

text \<open>The tick (1-based position in the sequence) of the first batch that holds a
  label; \<open>None\<close> when no batch does.\<close>

fun first_tick :: "pystr \<Rightarrow> batch list \<Rightarrow> nat option" where
  "first_tick l [] = None"
| "first_tick l (b # bs) =
     (if map_of b l \<noteq> None then Some 1 else map_option Suc (first_tick l bs))"

text \<open>A batch is a Python dict: its keys are distinct.\<close>

definition is_dict :: "('k \<times> 'v) list \<Rightarrow> bool" where
  "is_dict d = distinct (map fst d)"

text \<open>The store built with capacity \<open>mp\<close> and fed the batches \<open>bs\<close>, and the
  length of every series it then tracks.\<close>

definition store_after :: "int \<Rightarrow> batch list \<Rightarrow> error + graph" where
  "store_after mp bs =
     (case PlotextGraph_init mp of Inl e \<Rightarrow> Inl e | Inr g \<Rightarrow> add_all bs g)"

definition series_lengths :: "graph \<Rightarrow> (pystr \<times> nat) list" where
  "series_lengths g = map (\<lambda>(l, d). (l, length (items d))) (data_series g)"

definition lengths_after :: "int \<Rightarrow> batch list \<Rightarrow> error + (pystr \<times> nat) list" where
  "lengths_after mp bs = map_sum id series_lengths (store_after mp bs)"

text \<open>The invariant of the store after the batches \<open>bs\<close>: the tick counter, the window of
  retained ticks, and for every tracked label its first tick and the length of its series.\<close>

definition tracked :: "nat \<Rightarrow> batch list \<Rightarrow> graph \<Rightarrow> bool" where
  "tracked cap bs g =
     (int cap < 2 ^ 63 \<and>
      max_points g = int cap \<and> sample_count g = int (length bs) \<and>
      distinct (map fst (data_series g)) \<and>
      maxlen (timestamps g) = cap \<and>
      items (timestamps g) = map int [Suc (length bs - cap)..<Suc (length bs)] \<and>
      (\<forall>l. case map_of (data_series g) l of
             None \<Rightarrow> first_tick l bs = None
           | Some d \<Rightarrow> maxlen d = cap \<and>
               (\<exists>t. first_tick l bs = Some t \<and>
                    length (items d) = min cap (Suc (length bs) - t))))"

section \<open>The latest-values display: CurrentValues\<close>

text \<open>\<^verbatim>\<open>dict.update(other)\<close>: the pairs of \<open>other\<close> are stored one by one.\<close>

fun dict_update :: "('k \<times> 'v) list \<Rightarrow> ('k \<times> 'v) list \<Rightarrow> ('k \<times> 'v) list" where
  "dict_update d [] = d"
| "dict_update d ((k, v) # kvs) = dict_update (AList.update k v d) kvs"

record current_values =
  cv_values :: batch

definition update_values :: "batch \<Rightarrow> current_values \<Rightarrow> current_values" where
  "update_values vals cv = cv\<lparr>cv_values := dict_update (cv_values cv) vals\<rparr>"

fun update_all :: "batch list \<Rightarrow> current_values \<Rightarrow> current_values" where
  "update_all [] cv = cv"
| "update_all (b # bs) cv = update_all bs (update_values b cv)"

text \<open>The value of a name in the last batch that holds it.\<close>

fun latest_value :: "pystr \<Rightarrow> batch list \<Rightarrow> pyfloat option" where
  "latest_value k [] = None"
| "latest_value k (b # bs) =
     (case latest_value k bs of Some v \<Rightarrow> Some v | None \<Rightarrow> map_of b k)"

section \<open>Text: character classes, strip, float()\<close>

text \<open>
  The classes of \<^verbatim>\<open>re\<close> on a \<^verbatim>\<open>str\<close> pattern and of \<^verbatim>\<open>str.strip\<close> are
  those of the Unicode database: \<^verbatim>\<open>\s\<close> and \<^verbatim>\<open>strip\<close> take the code points
  with \<^verbatim>\<open>isspace\<close>, \<^verbatim>\<open>\d\<close> those with \<^verbatim>\<open>isdecimal\<close>, \<^verbatim>\<open>\w\<close> those
  with \<^verbatim>\<open>isalnum\<close> and the underscore. The tables are the ones of CPython 3.11
  (Unicode 14.0), as sorted lists of ranges; \<open>alnum_ranges\<close> holds the alphanumeric code
  points that are not decimal digits. In every range of decimal digits the digits
  0 to 9 follow each other in order, starting with 0 at the start of the range (a range
  may hold several such runs of ten), so the value of a digit is its offset in the range
  modulo 10.
\<close>

fun in_ranges :: "int \<Rightarrow> (int \<times> int) list \<Rightarrow> bool" where
  "in_ranges c [] = False"
| "in_ranges c ((lo, hi) # rs) =
     (if c < lo then False else if c \<le> hi then True else in_ranges c rs)"

fun decimal_in :: "int \<Rightarrow> (int \<times> int) list \<Rightarrow> nat option" where
  "decimal_in c [] = None"
| "decimal_in c ((lo, hi) # rs) =
     (if c < lo then None else if c \<le> hi then Some (nat ((c - lo) mod 10)) else decimal_in c rs)"

definition space_ranges :: "(int \<times> int) list" where
  "space_ranges =
     [(9, 13), (28, 32), (133, 133), (160, 160), (5760, 5760), (8192, 8202), (8232, 8233),
      (8239, 8239), (8287, 8287), (12288, 12288)]"

definition decimal_ranges :: "(int \<times> int) list" where
  "decimal_ranges =
     [(48, 57), (1632, 1641), (1776, 1785), (1984, 1993), (2406, 2415), (2534, 2543),
      (2662, 2671), (2790, 2799), (2918, 2927), (3046, 3055), (3174, 3183), (3302, 3311),
      (3430, 3439), (3558, 3567), (3664, 3673), (3792, 3801), (3872, 3881), (4160, 4169),
      (4240, 4249), (6112, 6121), (6160, 6169), (6470, 6479), (6608, 6617), (6784, 6793),
      (6800, 6809), (6992, 7001), (7088, 7097), (7232, 7241), (7248, 7257), (42528, 42537),
      (43216, 43225), (43264, 43273), (43472, 43481), (43504, 43513), (43600, 43609),
      (44016, 44025), (65296, 65305), (66720, 66729), (68912, 68921), (69734, 69743),
      (69872, 69881), (69942, 69951), (70096, 70105), (70384, 70393), (70736, 70745),
      (70864, 70873), (71248, 71257), (71360, 71369), (71472, 71481), (71904, 71913),
      (72016, 72025), (72784, 72793), (73040, 73049), (73120, 73129), (92768, 92777),
      (92864, 92873), (93008, 93017), (120782, 120831), (123200, 123209), (123632, 123641),
      (125264, 125273), (130032, 130041)]"

definition alnum_ranges :: "(int \<times> int) list" where
  "alnum_ranges =
     [(65, 90), (97, 122), (170, 170), (178, 179), (181, 181), (185, 186), (188, 190),
      (192, 214), (216, 246), (248, 705), (710, 721), (736, 740), (748, 748), (750, 750),
      (880, 884), (886, 887), (890, 893), (895, 895), (902, 902), (904, 906), (908, 908),
      (910, 929), (931, 1013), (1015, 1153), (1162, 1327), (1329, 1366), (1369, 1369),
      (1376, 1416), (1488, 1514), (1519, 1522), (1568, 1610), (1646, 1647), (1649, 1747),
      (1749, 1749), (1765, 1766), (1774, 1775), (1786, 1788), (1791, 1791), (1808, 1808),
      (1810, 1839), (1869, 1957), (1969, 1969), (1994, 2026), (2036, 2037), (2042, 2042),
      (2048, 2069), (2074, 2074), (2084, 2084), (2088, 2088), (2112, 2136), (2144, 2154),
      (2160, 2183), (2185, 2190), (2208, 2249), (2308, 2361), (2365, 2365), (2384, 2384),
      (2392, 2401), (2417, 2432), (2437, 2444), (2447, 2448), (2451, 2472), (2474, 2480),
      (2482, 2482), (2486, 2489), (2493, 2493), (2510, 2510), (2524, 2525), (2527, 2529),
      (2544, 2545), (2548, 2553), (2556, 2556), (2565, 2570), (2575, 2576), (2579, 2600),
      (2602, 2608), (2610, 2611), (2613, 2614), (2616, 2617), (2649, 2652), (2654, 2654),
      (2674, 2676), (2693, 2701), (2703, 2705), (2707, 2728), (2730, 2736), (2738, 2739),
      (2741, 2745), (2749, 2749), (2768, 2768), (2784, 2785), (2809, 2809), (2821, 2828),
      (2831, 2832), (2835, 2856), (2858, 2864), (2866, 2867), (2869, 2873), (2877, 2877),
      (2908, 2909), (2911, 2913), (2929, 2935), (2947, 2947), (2949, 2954), (2958, 2960),
      (2962, 2965), (2969, 2970), (2972, 2972), (2974, 2975), (2979, 2980), (2984, 2986),
      (2990, 3001), (3024, 3024), (3056, 3058), (3077, 3084), (3086, 3088), (3090, 3112),
      (3114, 3129), (3133, 3133), (3160, 3162), (3165, 3165), (3168, 3169), (3192, 3198),
      (3200, 3200), (3205, 3212), (3214, 3216), (3218, 3240), (3242, 3251), (3253, 3257),
      (3261, 3261), (3293, 3294), (3296, 3297), (3313, 3314), (3332, 3340), (3342, 3344),
      (3346, 3386), (3389, 3389), (3406, 3406), (3412, 3414), (3416, 3425), (3440, 3448),
      (3450, 3455), (3461, 3478), (3482, 3505), (3507, 3515), (3517, 3517), (3520, 3526),
      (3585, 3632), (3634, 3635), (3648, 3654), (3713, 3714), (3716, 3716), (3718, 3722),
      (3724, 3747), (3749, 3749), (3751, 3760), (3762, 3763), (3773, 3773), (3776, 3780),
      (3782, 3782), (3804, 3807), (3840, 3840), (3882, 3891), (3904, 3911), (3913, 3948),
      (3976, 3980), (4096, 4138), (4159, 4159), (4176, 4181), (4186, 4189), (4193, 4193),
      (4197, 4198), (4206, 4208), (4213, 4225), (4238, 4238), (4256, 4293), (4295, 4295),
      (4301, 4301), (4304, 4346), (4348, 4680), (4682, 4685), (4688, 4694), (4696, 4696),
      (4698, 4701), (4704, 4744), (4746, 4749), (4752, 4784), (4786, 4789), (4792, 4798),
      (4800, 4800), (4802, 4805), (4808, 4822), (4824, 4880), (4882, 4885), (4888, 4954),
      (4969, 4988), (4992, 5007), (5024, 5109), (5112, 5117), (5121, 5740), (5743, 5759),
      (5761, 5786), (5792, 5866), (5870, 5880), (5888, 5905), (5919, 5937), (5952, 5969),
      (5984, 5996), (5998, 6000), (6016, 6067), (6103, 6103), (6108, 6108), (6128, 6137),
      (6176, 6264), (6272, 6276), (6279, 6312), (6314, 6314), (6320, 6389), (6400, 6430),
      (6480, 6509), (6512, 6516), (6528, 6571), (6576, 6601), (6618, 6618), (6656, 6678),
      (6688, 6740), (6823, 6823), (6917, 6963), (6981, 6988), (7043, 7072), (7086, 7087),
      (7098, 7141), (7168, 7203), (7245, 7247), (7258, 7293), (7296, 7304), (7312, 7354),
      (7357, 7359), (7401, 7404), (7406, 7411), (7413, 7414), (7418, 7418), (7424, 7615),
      (7680, 7957), (7960, 7965), (7968, 8005), (8008, 8013), (8016, 8023), (8025, 8025),
      (8027, 8027), (8029, 8029), (8031, 8061), (8064, 8116), (8118, 8124), (8126, 8126),
      (8130, 8132), (8134, 8140), (8144, 8147), (8150, 8155), (8160, 8172), (8178, 8180),
      (8182, 8188), (8304, 8305), (8308, 8313), (8319, 8329), (8336, 8348), (8450, 8450),
      (8455, 8455), (8458, 8467), (8469, 8469), (8473, 8477), (8484, 8484), (8486, 8486),
      (8488, 8488), (8490, 8493), (8495, 8505), (8508, 8511), (8517, 8521), (8526, 8526),
      (8528, 8585), (9312, 9371), (9450, 9471), (10102, 10131), (11264, 11492), (11499, 11502),
      (11506, 11507), (11517, 11517), (11520, 11557), (11559, 11559), (11565, 11565),
      (11568, 11623), (11631, 11631), (11648, 11670), (11680, 11686), (11688, 11694),
      (11696, 11702), (11704, 11710), (11712, 11718), (11720, 11726), (11728, 11734),
      (11736, 11742), (11823, 11823), (12293, 12295), (12321, 12329), (12337, 12341),
      (12344, 12348), (12353, 12438), (12445, 12447), (12449, 12538), (12540, 12543),
      (12549, 12591), (12593, 12686), (12690, 12693), (12704, 12735), (12784, 12799),
      (12832, 12841), (12872, 12879), (12881, 12895), (12928, 12937), (12977, 12991),
      (13312, 19903), (19968, 42124), (42192, 42237), (42240, 42508), (42512, 42527),
      (42538, 42539), (42560, 42606), (42623, 42653), (42656, 42735), (42775, 42783),
      (42786, 42888), (42891, 42954), (42960, 42961), (42963, 42963), (42965, 42969),
      (42994, 43009), (43011, 43013), (43015, 43018), (43020, 43042), (43056, 43061),
      (43072, 43123), (43138, 43187), (43250, 43255), (43259, 43259), (43261, 43262),
      (43274, 43301), (43312, 43334), (43360, 43388), (43396, 43442), (43471, 43471),
      (43488, 43492), (43494, 43503), (43514, 43518), (43520, 43560), (43584, 43586),
      (43588, 43595), (43616, 43638), (43642, 43642), (43646, 43695), (43697, 43697),
      (43701, 43702), (43705, 43709), (43712, 43712), (43714, 43714), (43739, 43741),
      (43744, 43754), (43762, 43764), (43777, 43782), (43785, 43790), (43793, 43798),
      (43808, 43814), (43816, 43822), (43824, 43866), (43868, 43881), (43888, 44002),
      (44032, 55203), (55216, 55238), (55243, 55291), (63744, 64109), (64112, 64217),
      (64256, 64262), (64275, 64279), (64285, 64285), (64287, 64296), (64298, 64310),
      (64312, 64316), (64318, 64318), (64320, 64321), (64323, 64324), (64326, 64433),
      (64467, 64829), (64848, 64911), (64914, 64967), (65008, 65019), (65136, 65140),
      (65142, 65276), (65313, 65338), (65345, 65370), (65382, 65470), (65474, 65479),
      (65482, 65487), (65490, 65495), (65498, 65500), (65536, 65547), (65549, 65574),
      (65576, 65594), (65596, 65597), (65599, 65613), (65616, 65629), (65664, 65786),
      (65799, 65843), (65856, 65912), (65930, 65931), (66176, 66204), (66208, 66256),
      (66273, 66299), (66304, 66339), (66349, 66378), (66384, 66421), (66432, 66461),
      (66464, 66499), (66504, 66511), (66513, 66517), (66560, 66717), (66736, 66771),
      (66776, 66811), (66816, 66855), (66864, 66915), (66928, 66938), (66940, 66954),
      (66956, 66962), (66964, 66965), (66967, 66977), (66979, 66993), (66995, 67001),
      (67003, 67004), (67072, 67382), (67392, 67413), (67424, 67431), (67456, 67461),
      (67463, 67504), (67506, 67514), (67584, 67589), (67592, 67592), (67594, 67637),
      (67639, 67640), (67644, 67644), (67647, 67669), (67672, 67702), (67705, 67742),
      (67751, 67759), (67808, 67826), (67828, 67829), (67835, 67867), (67872, 67897),
      (67968, 68023), (68028, 68047), (68050, 68096), (68112, 68115), (68117, 68119),
      (68121, 68149), (68160, 68168), (68192, 68222), (68224, 68255), (68288, 68295),
      (68297, 68324), (68331, 68335), (68352, 68405), (68416, 68437), (68440, 68466),
      (68472, 68497), (68521, 68527), (68608, 68680), (68736, 68786), (68800, 68850),
      (68858, 68899), (69216, 69246), (69248, 69289), (69296, 69297), (69376, 69415),
      (69424, 69445), (69457, 69460), (69488, 69505), (69552, 69579), (69600, 69622),
      (69635, 69687), (69714, 69733), (69745, 69746), (69749, 69749), (69763, 69807),
      (69840, 69864), (69891, 69926), (69956, 69956), (69959, 69959), (69968, 70002),
      (70006, 70006), (70019, 70066), (70081, 70084), (70106, 70106), (70108, 70108),
      (70113, 70132), (70144, 70161), (70163, 70187), (70272, 70278), (70280, 70280),
      (70282, 70285), (70287, 70301), (70303, 70312), (70320, 70366), (70405, 70412),
      (70415, 70416), (70419, 70440), (70442, 70448), (70450, 70451), (70453, 70457),
      (70461, 70461), (70480, 70480), (70493, 70497), (70656, 70708), (70727, 70730),
      (70751, 70753), (70784, 70831), (70852, 70853), (70855, 70855), (71040, 71086),
      (71128, 71131), (71168, 71215), (71236, 71236), (71296, 71338), (71352, 71352),
      (71424, 71450), (71482, 71483), (71488, 71494), (71680, 71723), (71840, 71903),
      (71914, 71922), (71935, 71942), (71945, 71945), (71948, 71955), (71957, 71958),
      (71960, 71983), (71999, 71999), (72001, 72001), (72096, 72103), (72106, 72144),
      (72161, 72161), (72163, 72163), (72192, 72192), (72203, 72242), (72250, 72250),
      (72272, 72272), (72284, 72329), (72349, 72349), (72368, 72440), (72704, 72712),
      (72714, 72750), (72768, 72768), (72794, 72812), (72818, 72847), (72960, 72966),
      (72968, 72969), (72971, 73008), (73030, 73030), (73056, 73061), (73063, 73064),
      (73066, 73097), (73112, 73112), (73440, 73458), (73648, 73648), (73664, 73684),
      (73728, 74649), (74752, 74862), (74880, 75075), (77712, 77808), (77824, 78894),
      (82944, 83526), (92160, 92728), (92736, 92766), (92784, 92862), (92880, 92909),
      (92928, 92975), (92992, 92995), (93019, 93025), (93027, 93047), (93053, 93071),
      (93760, 93846), (93952, 94026), (94032, 94032), (94099, 94111), (94176, 94177),
      (94179, 94179), (94208, 100343), (100352, 101589), (101632, 101640), (110576, 110579),
      (110581, 110587), (110589, 110590), (110592, 110882), (110928, 110930), (110948, 110951),
      (110960, 111355), (113664, 113770), (113776, 113788), (113792, 113800), (113808, 113817),
      (119520, 119539), (119648, 119672), (119808, 119892), (119894, 119964), (119966, 119967),
      (119970, 119970), (119973, 119974), (119977, 119980), (119982, 119993), (119995, 119995),
      (119997, 120003), (120005, 120069), (120071, 120074), (120077, 120084), (120086, 120092),
      (120094, 120121), (120123, 120126), (120128, 120132), (120134, 120134), (120138, 120144),
      (120146, 120485), (120488, 120512), (120514, 120538), (120540, 120570), (120572, 120596),
      (120598, 120628), (120630, 120654), (120656, 120686), (120688, 120712), (120714, 120744),
      (120746, 120770), (120772, 120779), (122624, 122654), (123136, 123180), (123191, 123197),
      (123214, 123214), (123536, 123565), (123584, 123627), (124896, 124902), (124904, 124907),
      (124909, 124910), (124912, 124926), (124928, 125124), (125127, 125135), (125184, 125251),
      (125259, 125259), (126065, 126123), (126125, 126127), (126129, 126132), (126209, 126253),
      (126255, 126269), (126464, 126467), (126469, 126495), (126497, 126498), (126500, 126500),
      (126503, 126503), (126505, 126514), (126516, 126519), (126521, 126521), (126523, 126523),
      (126530, 126530), (126535, 126535), (126537, 126537), (126539, 126539), (126541, 126543),
      (126545, 126546), (126548, 126548), (126551, 126551), (126553, 126553), (126555, 126555),
      (126557, 126557), (126559, 126559), (126561, 126562), (126564, 126564), (126567, 126570),
      (126572, 126578), (126580, 126583), (126585, 126588), (126590, 126590), (126592, 126601),
      (126603, 126619), (126625, 126627), (126629, 126633), (126635, 126651), (127232, 127244),
      (131072, 173791), (173824, 177976), (177984, 178205), (178208, 183969), (183984, 191456),
      (194560, 195101), (196608, 201546)]"

definition is_space :: "int \<Rightarrow> bool" where
  "is_space c = in_ranges c space_ranges"

definition is_digit :: "int \<Rightarrow> bool" where
  "is_digit c = in_ranges c decimal_ranges"

definition is_word :: "int \<Rightarrow> bool" where
  "is_word c = (is_digit c \<or> in_ranges c alnum_ranges \<or> c = 95)"

text \<open>\<^verbatim>\<open>line.strip()\<close>: leading and trailing whitespace is removed.\<close>

definition py_strip :: "pystr \<Rightarrow> pystr" where
  "py_strip s = rev (dropWhile is_space (rev (dropWhile is_space s)))"

text \<open>
  \<^verbatim>\<open>float(s)\<close> on the spellings without exponent: an optional sign, then
  \<^verbatim>\<open>nan\<close>, \<^verbatim>\<open>inf\<close> or \<^verbatim>\<open>infinity\<close> in any case, or decimal digits (of any
  script, each with its digit value) with at most one point and at least one digit;
  everything else is a ValueError here (the patterns of the parser produce no exponent,
  underscore or blank). The decimal \<open>n / 10 ^ k\<close> is rounded to the nearest double, ties
  to even: with \<open>e\<close> the binary exponent of the value (at least \<open>-1022\<close>, the subnormal
  range), the result is a multiple of \<open>2 ^ (e - 52)\<close>. A magnitude of at least
  \<open>2 ^ 1024 - 2 ^ 970\<close> rounds to infinity: \<^verbatim>\<open>float\<close> raises no OverflowError for a
  string. The code points 45, 43 and 46 are the minus sign, the plus sign and the point.
\<close>

definition digit_val :: "int \<Rightarrow> nat" where
  "digit_val c = (case decimal_in c decimal_ranges of Some d \<Rightarrow> d | None \<Rightarrow> 0)"

definition digits_val :: "pystr \<Rightarrow> nat" where
  "digits_val ds = foldl (\<lambda>a c. 10 * a + digit_val c) 0 ds"

definition pow2 :: "int \<Rightarrow> rat" where
  "pow2 e = (if 0 \<le> e then 2 ^ nat e else 1 / 2 ^ nat (- e))"

definition ilog2 :: "nat \<Rightarrow> nat \<Rightarrow> int" where
  "ilog2 n k =
     (let e0 = int (floorlog 2 n) - int (floorlog 2 (10 ^ k))
      in if pow2 e0 \<le> of_nat n / 10 ^ k then e0 else e0 - 1)"

definition round_half_even :: "rat \<Rightarrow> int" where
  "round_half_even r =
     (let f = \<lfloor>r\<rfloor>; d = r - of_int f
      in if d < 1 / 2 then f else if 1 / 2 < d then f + 1
         else if even f then f else f + 1)"

definition nearest_double :: "nat \<Rightarrow> nat \<Rightarrow> rat" where
  "nearest_double n k =
     (if n = 0 then 0
      else let x = of_nat n / 10 ^ k;
               e = max (ilog2 n k) (- 1022);
               q = pow2 (e - 52)
           in of_int (round_half_even (x / q)) * q)"

definition overflow_threshold :: rat where
  "overflow_threshold = 2 ^ 1024 - 2 ^ 970"

definition dec_to_double :: "bool \<Rightarrow> nat \<Rightarrow> nat \<Rightarrow> pyfloat" where
  "dec_to_double neg n k =
     (if overflow_threshold \<le> of_nat n / 10 ^ k then Infinite neg
      else Finite neg (nearest_double n k))"

fun split_sign :: "pystr \<Rightarrow> bool \<times> pystr" where
  "split_sign [] = (False, [])"
| "split_sign (c # cs) =
     (if c = 45 then (True, cs) else if c = 43 then (False, cs)
      else (False, c # cs))"

definition to_lower :: "int \<Rightarrow> int" where
  "to_lower c = (if 65 \<le> c \<and> c \<le> 90 then c + 32 else c)"

definition py_float :: "pystr \<Rightarrow> error + pyfloat" where
  "py_float s =
     (let (neg, body) = split_sign s; low = map to_lower body
      in if low = str ''nan'' then Inr NaN
         else if low = str ''inf'' \<or> low = str ''infinity'' then Inr (Infinite neg)
         else let ip = takeWhile is_digit body; rest = dropWhile is_digit body
              in (case rest of
                    [] \<Rightarrow> if ip = [] then Inl ValueError
                          else Inr (dec_to_double neg (digits_val ip) 0)
                  | c # fp \<Rightarrow>
                      if c = 46 \<and> list_all is_digit fp \<and> (ip \<noteq> [] \<or> fp \<noteq> [])
                      then Inr (dec_to_double neg (digits_val (ip @ fp)) (length fp))
                      else Inl ValueError))"

text \<open>\<^verbatim>\<open>str(n)\<close> for a natural number, as the f-string \<^verbatim>\<open>f'CH{i+1}'\<close> uses it.\<close>

definition digit_char :: "nat \<Rightarrow> int" where
  "digit_char d = 48 + int d"

function str_nat :: "nat \<Rightarrow> pystr" where
  "str_nat n = (if n < 10 then [digit_char n] else str_nat (n div 10) @ [digit_char (n mod 10)])"
  by pat_completeness auto
termination
  by (relation "measure id") auto

declare str_nat.simps [simp del]

section \<open>The regular expressions of the parser\<close>

text \<open>
  The three patterns of \<^verbatim>\<open>parse_line\<close> are sequences of character classes, each
  with a greedy quantifier. A class is the list of its items; an atom is a class with its
  quantifier.
\<close>

datatype item = Lit int | Word | Space | Digit

fun in_item :: "item \<Rightarrow> int \<Rightarrow> bool" where
  "in_item (Lit a) c = (c = a)"
| "in_item Word c = is_word c"
| "in_item Space c = is_space c"
| "in_item Digit c = is_digit c"

definition in_class :: "item list \<Rightarrow> int \<Rightarrow> bool" where
  "in_class cls c = list_ex (\<lambda>i. in_item i c) cls"

datatype quant = One | Opt | Star | Plus

type_synonym atom = "item list \<times> quant"

fun at_least :: "quant \<Rightarrow> nat" where
  "at_least One = 1" | "at_least Opt = 0" | "at_least Star = 0" | "at_least Plus = 1"

fun at_most :: "quant \<Rightarrow> nat \<Rightarrow> nat" where
  "at_most One n = min 1 n" | "at_most Opt n = min 1 n"
| "at_most Star n = n" | "at_most Plus n = n"

text \<open>
  The backtracking matcher of \<^verbatim>\<open>re\<close>, anchored at the start of the string: an
  atom first takes the longest run its class and quantifier allow, then gives characters
  back one by one until the rest of the pattern matches. The result is the piece of text
  each atom has matched.
\<close>

fun first_some :: "('a \<Rightarrow> 'b option) \<Rightarrow> 'a list \<Rightarrow> 'b option" where
  "first_some f [] = None"
| "first_some f (x # xs) = (case f x of Some y \<Rightarrow> Some y | None \<Rightarrow> first_some f xs)"

definition countdown :: "nat \<Rightarrow> nat \<Rightarrow> nat list" where
  "countdown lo hi = rev [lo..<Suc hi]"

primrec match_here :: "atom list \<Rightarrow> pystr \<Rightarrow> pystr list option" where
  "match_here [] s = Some []"
| "match_here (a # as) s =
     first_some (\<lambda>k. map_option ((#) (take k s)) (match_here as (drop k s)))
       (countdown (at_least (snd a))
          (at_most (snd a) (length (takeWhile (in_class (fst a)) s))))"

text \<open>\<^verbatim>\<open>re.search(p, s).group()\<close>: the match at the leftmost position that has
  one.\<close>

fun re_search :: "atom list \<Rightarrow> pystr \<Rightarrow> pystr option" where
  "re_search p [] = map_option concat (match_here p [])"
| "re_search p (c # cs) =
     (case match_here p (c # cs) of
        Some ps \<Rightarrow> Some (concat ps)
      | None \<Rightarrow> re_search p cs)"

text \<open>\<^verbatim>\<open>re.findall\<close>: the matches from left to right, each search starting where
  the previous match ended (one character further after an empty match).\<close>

fun re_findall :: "atom list \<Rightarrow> pystr \<Rightarrow> pystr list list" where
  "re_findall p [] = (case match_here p [] of Some ps \<Rightarrow> [ps] | None \<Rightarrow> [])"
| "re_findall p (c # cs) =
     (case match_here p (c # cs) of
        None \<Rightarrow> re_findall p cs
      | Some ps \<Rightarrow> ps # re_findall p (drop (length (concat ps) - 1) cs))"

text \<open>\<^verbatim>\<open>re.split\<close>: the text between the matches, with the empty strings before a
  leading and after a trailing match. A match of a \<^verbatim>\<open>+\<close> pattern is never empty;
  an empty match splits nothing here.\<close>

fun split_from :: "atom list \<Rightarrow> pystr \<Rightarrow> pystr \<Rightarrow> pystr list" where
  "split_from p cur [] = [cur]"
| "split_from p cur (c # cs) =
     (case match_here p (c # cs) of
        None \<Rightarrow> split_from p (cur @ [c]) cs
      | Some ps \<Rightarrow>
          if concat ps = [] then split_from p (cur @ [c]) cs
          else cur # split_from p [] (drop (length (concat ps) - 1) cs))"

definition re_split :: "atom list \<Rightarrow> pystr \<Rightarrow> pystr list" where
  "re_split p s = split_from p [] s"

text \<open>
  \<^verbatim>\<open>[-+]?\d*\.?\d+\<close>, \<^verbatim>\<open>(\w+)\s*[:=]\s*([-+]?\d*\.?\d+)\<close> and
  \<^verbatim>\<open>[,;\s\t]+\<close>. The two groups of the labeled pattern are its first atom and its
  last four. The code points 58 and 61 are the colon and the equals sign, 44 and 59 the
  comma and the semicolon, 9 the tab.
\<close>

definition number_pattern :: "atom list" where
  "number_pattern = [([Lit 45, Lit 43], Opt), ([Digit], Star), ([Lit 46], Opt), ([Digit], Plus)]"

definition labeled_pattern :: "atom list" where
  "labeled_pattern =
     [([Word], Plus), ([Space], Star), ([Lit 58, Lit 61], One), ([Space], Star)]
     @ number_pattern"

definition split_pattern :: "atom list" where
  "split_pattern = [([Lit 44, Lit 59, Space, Lit 9], Plus)]"

fun labeled_groups :: "pystr list \<Rightarrow> pystr \<times> pystr" where
  "labeled_groups (w # s1 # sep # s2 # num) = (w, concat num)"
| "labeled_groups ps = ([], [])"

section \<open>The line parser: parse_line\<close>

text \<open>The loop over the labeled matches: \<^verbatim>\<open>values[label] = float(value)\<close>, a
  ValueError is swallowed.\<close>

definition labeled_values :: "(pystr \<times> pystr) list \<Rightarrow> batch" where
  "labeled_values labeled_matches =
     foldl (\<lambda>vals (label, tok).
              case py_float tok of
                Inr v \<Rightarrow> AList.update label v vals
              | Inl e \<Rightarrow> vals) [] labeled_matches"

text \<open>The loop over the enumerated parts: the first number found in a part is stored
  under \<^verbatim>\<open>f'CH{i+1}'\<close> (\<^verbatim>\<open>f'Kanal_{i+1}'\<close> in \<^verbatim>\<open>serial_plotter.py\<close>); the
  prefix of the name is the first argument.\<close>

definition positional_values :: "pystr \<Rightarrow> pystr list \<Rightarrow> batch" where
  "positional_values prefix parts =
     foldl (\<lambda>vals (i, part).
              case re_search number_pattern part of
                None \<Rightarrow> vals
              | Some tok \<Rightarrow>
                  (case py_float tok of
                     Inr v \<Rightarrow> AList.update (prefix @ str_nat (i + 1)) v vals
                   | Inl e \<Rightarrow> vals)) [] (enumerate 0 parts)"

text \<open>\<^verbatim>\<open>parse_line\<close>, with the prefix of the synthetic names as its first argument:
  \<open>CH\<close> in the two TUI files and \<open>Kanal\<close> in \<^verbatim>\<open>serial_plotter.py\<close>.\<close>

definition parse_line :: "pystr \<Rightarrow> pystr \<Rightarrow> batch" where
  "parse_line prefix line0 =
     (let line = py_strip line0
      in if line = [] then []
         else
           let labeled_matches = map labeled_groups (re_findall labeled_pattern line)
           in if labeled_matches \<noteq> [] then labeled_values labeled_matches
              else positional_values prefix (re_split split_pattern line))"

definition CH :: pystr where
  "CH = str ''CH''"

definition Kanal :: pystr where
  "Kanal = str ''Kanal_''"

section \<open>The application: log, latest values, graph\<close>

text \<open>
  The widgets that \<^verbatim>\<open>process_line\<close> and the key bindings touch. The clock readings
  of \<^verbatim>\<open>datetime.now()\<close> are an input: the text of the log line and the ISO stamp
  of the session record.
\<close>

record app =
  serial_log :: "pystr list"
  current :: current_values
  graph :: graph
  session_data :: "(pystr \<times> pystr \<times> batch) list"
  all_labels :: "pystr set"

definition compose :: "int \<Rightarrow> error + app" where
  "compose mp =
     (case PlotextGraph_init mp of
        Inl e \<Rightarrow> Inl e
      | Inr g \<Rightarrow> Inr \<lparr>serial_log = [], current = \<lparr>cv_values = []\<rparr>, graph = g,
                      session_data = [], all_labels = {}\<rparr>)"

definition process_line :: "pystr \<times> pystr \<Rightarrow> pystr \<Rightarrow> app \<Rightarrow> error + app" where
  "process_line clock line a =
     (let a1 = a\<lparr>serial_log :=
                   serial_log a @ [str ''[dim]'' @ fst clock @ str ''[/dim] '' @ line]\<rparr>;
          vals = parse_line CH line
      in if vals \<noteq> [] then
           (case add_values vals (graph a1) of
              Inl e \<Rightarrow> Inl e
            | Inr g \<Rightarrow>
                Inr (a1\<lparr>session_data := session_data a1 @ [(snd clock, line, vals)],
                        all_labels := all_labels a1 \<union> fst ` set vals,
                        current := update_values vals (current a1),
                        graph := g\<rparr>))
         else Inr a1)"

fun process_lines :: "((pystr \<times> pystr) \<times> pystr) list \<Rightarrow> app \<Rightarrow> error + app" where
  "process_lines [] a = Inr a"
| "process_lines ((clock, line) # rest) a =
     (case process_line clock line a of Inl e \<Rightarrow> Inl e | Inr a' \<Rightarrow> process_lines rest a')"

definition action_clear :: "app \<Rightarrow> app" where
  "action_clear a = a\<lparr>serial_log := []\<rparr>"

definition app_after :: "int \<Rightarrow> ((pystr \<times> pystr) \<times> pystr) list \<Rightarrow> error + app" where
  "app_after mp ls = (case compose mp of Inl e \<Rightarrow> Inl e | Inr a \<Rightarrow> process_lines ls a)"

definition store_view :: "app \<Rightarrow> int \<times> (pystr \<times> nat) list" where
  "store_view a = (sample_count (graph a), series_lengths (graph a))"

section \<open>The link supervisor: read_serial_loop\<close>

text \<open>
  One pass of the \<^verbatim>\<open>while self.running\<close> loop sees the flags, the clock, what a
  reconnect attempt would give and what reading the port gives. \<open>serial_conn\<close> is
  \<open>None\<close> or the \<^verbatim>\<open>is_open\<close> flag of the handle. The events are the calls the loop
  hands to the main thread; \<^verbatim>\<open>connect_serial\<close> writes its own log line.
\<close>

datatype read_outcome = NoData | Line pystr | SerialException | OSError | OtherException

record link_state =
  serial_conn :: "bool option"
  disconnected :: bool
  last_reconnect_attempt :: rat

record poll =
  running :: bool
  paused :: bool
  now :: rat
  reconnect_ok :: bool
  read_result :: read_outcome

datatype event =
  LogConnected | LogConnectError
  | ShowDisconnected | ShowReconnected
  | ProcessLine pystr | LogError

definition reconnect_interval :: rat where
  "reconnect_interval = 1"

definition connect_serial :: "bool \<Rightarrow> link_state \<Rightarrow> link_state \<times> event list" where
  "connect_serial ok s =
     (if ok then (s\<lparr>serial_conn := Some True\<rparr>, [LogConnected])
      else (s\<lparr>serial_conn := None\<rparr>, [LogConnectError]))"

definition try_reconnect :: "bool \<Rightarrow> link_state \<Rightarrow> bool \<times> link_state" where
  "try_reconnect ok s = (if ok then (True, s\<lparr>serial_conn := Some True\<rparr>) else (False, s))"

definition mark_disconnected :: "link_state \<Rightarrow> link_state \<times> event list" where
  "mark_disconnected s =
     (if \<not> disconnected s then (s\<lparr>disconnected := True\<rparr>, [ShowDisconnected]) else (s, []))"

definition drop_connection :: "link_state \<Rightarrow> link_state \<times> event list" where
  "drop_connection s =
     (let (s1, ev) = mark_disconnected s in (s1\<lparr>serial_conn := None\<rparr>, ev))"

definition loop_body :: "poll \<Rightarrow> link_state \<Rightarrow> link_state \<times> event list" where
  "loop_body p s =
     (if paused p then (s, [])
      else if serial_conn s = None \<or> serial_conn s = Some False then
        (if reconnect_interval \<le> now p - last_reconnect_attempt s then
           (let s1 = s\<lparr>last_reconnect_attempt := now p\<rparr>;
                (s2, ev) = mark_disconnected s1;
                (ok, s3) = try_reconnect (reconnect_ok p) s2
            in if ok then (s3\<lparr>disconnected := False\<rparr>, ev @ [ShowReconnected])
               else (s3, ev))
         else (s, []))
      else
        (case read_result p of
           NoData \<Rightarrow> (s, [])
         | Line raw \<Rightarrow>
             (let line = py_strip raw
              in if line \<noteq> [] then (s, [ProcessLine line]) else (s, []))
         | SerialException \<Rightarrow> drop_connection s
         | OSError \<Rightarrow> drop_connection s
         | OtherException \<Rightarrow> (s, [LogError])))"

fun read_serial_loop :: "poll list \<Rightarrow> link_state \<Rightarrow> link_state \<times> event list" where
  "read_serial_loop [] s = (s, [])"
| "read_serial_loop (p # ps) s =
     (if \<not> running p then (s, [])
      else let (s1, ev) = loop_body p s;
               (s2, evs) = read_serial_loop ps s1
           in (s2, ev @ evs))"

definition on_mount :: "bool \<Rightarrow> poll list \<Rightarrow> link_state \<times> event list" where
  "on_mount connect_ok ps =
     (let (s0, ev0) = connect_serial connect_ok
                        \<lparr>serial_conn = None, disconnected = False, last_reconnect_attempt = 0\<rparr>;
          (s, evs) = read_serial_loop ps (s0\<lparr>disconnected := False, last_reconnect_attempt := 0\<rparr>)
      in (s, ev0 @ evs))"

text \<open>The link-state notifications are \<^verbatim>\<open>_show_disconnected\<close> and
  \<^verbatim>\<open>_show_reconnected\<close>. A sequence of events is edge-triggered when a disconnect
  is shown only while connected and a reconnect only while disconnected.\<close>

fun is_notification :: "event \<Rightarrow> bool" where
  "is_notification ShowDisconnected = True"
| "is_notification ShowReconnected = True"
| "is_notification e = False"

definition notifications :: "event list \<Rightarrow> event list" where
  "notifications evs = filter is_notification evs"

fun edge_triggered :: "bool \<Rightarrow> event list \<Rightarrow> bool" where
  "edge_triggered d [] = True"
| "edge_triggered d (ShowDisconnected # es) = (\<not> d \<and> edge_triggered True es)"
| "edge_triggered d (ShowReconnected # es) = (d \<and> edge_triggered False es)"
| "edge_triggered d (e # es) = edge_triggered d es"

text \<open>Passes of the loop for the scenarios: a line read, a failed read, a reconnect
  attempt at a given time.\<close>

definition read_ok :: "pystr \<Rightarrow> poll" where
  "read_ok l = \<lparr>running = True, paused = False, now = 1000, reconnect_ok = False,
                read_result = Line l\<rparr>"

definition read_fail :: poll where
  "read_fail = \<lparr>running = True, paused = False, now = 1001, reconnect_ok = False,
                read_result = SerialException\<rparr>"

definition reconnect_at :: "rat \<Rightarrow> bool \<Rightarrow> poll" where
  "reconnect_at t ok = \<lparr>running = True, paused = False, now = t, reconnect_ok = ok,
                read_result = NoData\<rparr>"

section \<open>What the claims about the parser are stated with\<close>

text \<open>A piece of text that one atom can have matched: characters of its class, as many
  as its quantifier allows.\<close>

definition piece_ok :: "atom \<Rightarrow> pystr \<Rightarrow> bool" where
  "piece_ok a w =
     (list_all (in_class (fst a)) w \<and> at_least (snd a) \<le> length w \<and>
      length w \<le> at_most (snd a) (length w))"

text \<open>The numeric token of the spec: an optional sign, digits, an optional point, at least
  one digit. A digit is a code point of the class \<^verbatim>\<open>\d\<close>.\<close>

definition number_token :: "pystr \<Rightarrow> bool" where
  "number_token tok =
     (\<exists>sg d1 dot d2. tok = sg @ d1 @ dot @ d2 \<and>
        (sg = [] \<or> sg = [45] \<or> sg = [43]) \<and> list_all is_digit d1 \<and>
        (dot = [] \<or> dot = [46]) \<and> list_all is_digit d2 \<and> d2 \<noteq> [])"

text \<open>The bindings of the labeled matches, in order, each number converted by
  \<^verbatim>\<open>float\<close>.\<close>

definition labeled_bindings :: "(pystr \<times> pystr) list \<Rightarrow> batch" where
  "labeled_bindings ms =
     List.map_filter (\<lambda>(label, tok).
        case py_float tok of Inr v \<Rightarrow> Some (label, v) | Inl e \<Rightarrow> None) ms"

text \<open>The bindings of the positional grammar: field \<open>i\<close> (counted from \<open>n\<close>) is bound
  to the prefix followed by \<open>i + 1\<close> when it holds a number, and to nothing
  otherwise.\<close>

definition positional_bindings :: "pystr \<Rightarrow> nat \<Rightarrow> pystr list \<Rightarrow> batch" where
  "positional_bindings prefix n parts =
     List.map_filter (\<lambda>(i, part).
        case re_search number_pattern part of
          None \<Rightarrow> None
        | Some tok \<Rightarrow>
            (case py_float tok of
               Inr v \<Rightarrow> Some (prefix @ str_nat (i + 1), v)
             | Inl e \<Rightarrow> None)) (enumerate n parts)"

text \<open>The number a field contributes: the first numeric token in it, converted.\<close>

definition field_number :: "pystr \<Rightarrow> pyfloat option" where
  "field_number part =
     (case re_search number_pattern part of
        None \<Rightarrow> None
      | Some tok \<Rightarrow> (case py_float tok of Inr v \<Rightarrow> Some v | Inl e \<Rightarrow> None))"

text \<open>The fields of the spec: the line split at every run of commas, semicolons,
  whitespace and tabs.\<close>

definition is_sep :: "int \<Rightarrow> bool" where
  "is_sep c = (c = 44 \<or> c = 59 \<or> is_space c \<or> c = 9)"

function fields :: "pystr \<Rightarrow> pystr list" where
  "fields s =
     (let f = takeWhile (\<lambda>c. \<not> is_sep c) s;
          r = dropWhile (\<lambda>c. \<not> is_sep c) s
      in if r = [] then [f] else f # fields (dropWhile is_sep r))"
  by pat_completeness auto
termination
proof (relation "measure length")
  fix s :: pystr and f r
  assume r: "r = dropWhile (\<lambda>c. \<not> is_sep c) s" and ne: "r \<noteq> []"
  from ne have "\<not> \<not> is_sep (hd r)" unfolding r by (rule hd_dropWhile)
  then have "dropWhile is_sep r = dropWhile is_sep (tl r)" using ne by (cases r) simp_all
  then have "length (dropWhile is_sep r) \<le> length (tl r)"
    using length_dropWhile_le[of is_sep "tl r"] by (simp only:)
  also have "\<dots> < length r" using ne by simp
  also have "\<dots> \<le> length s" unfolding r by (rule length_dropWhile_le)
  finally show "(dropWhile is_sep r, s) \<in> measure length" by simp
qed simp

declare fields.simps [simp del]

section \<open>Properties of the deque and of one store update\<close>

lemma deque_append_maxlen: "maxlen (deque_append x d) = maxlen d"
  by (simp add: deque_append_def Let_def)

lemma deque_append_length:
  "length (items d) \<le> maxlen d \<Longrightarrow>
   length (items (deque_append x d)) = min (maxlen d) (Suc (length (items d)))"
  by (simp add: deque_append_def Let_def)

lemma add_present_map_of:
  "0 \<le> mp \<Longrightarrow> mp < 2 ^ 63 \<Longrightarrow> distinct (map fst vals) \<Longrightarrow>
   \<exists>ds'. add_present mp vals ds = Inr ds' \<and>
     (distinct (map fst ds) \<longrightarrow> distinct (map fst ds')) \<and>
     (\<forall>l. map_of ds' l =
        (case map_of vals l of
           None \<Rightarrow> map_of ds l
         | Some v \<Rightarrow> Some (deque_append (Some v)
               (case map_of ds l of None \<Rightarrow> \<lparr>maxlen = nat mp, items = []\<rparr> | Some d \<Rightarrow> d))))"
proof (induction vals arbitrary: ds)
  case Nil
  then show ?case by simp
next
  case (Cons p rest)
  obtain label v where p: "p = (label, v)" by (cases p)
  let ?d0 = "case map_of ds label of None \<Rightarrow> \<lparr>maxlen = nat mp, items = []\<rparr> | Some d \<Rightarrow> d"
  let ?ds1 = "AList.update label (deque_append (Some v) ?d0) ds"
  have step: "add_present mp (p # rest) ds = add_present mp rest ?ds1"
    using Cons.prems(1,2) by (simp add: p deque_new_def split: option.splits)
  have dr: "distinct (map fst rest)" and notin: "label \<notin> fst ` set rest"
    using Cons.prems(3) by (auto simp: p)
  from Cons.IH[OF Cons.prems(1,2) dr, of ?ds1] obtain ds' where
    r: "add_present mp rest ?ds1 = Inr ds'"
    and d: "distinct (map fst ?ds1) \<longrightarrow> distinct (map fst ds')"
    and m: "\<forall>l. map_of ds' l =
        (case map_of rest l of
           None \<Rightarrow> map_of ?ds1 l
         | Some v \<Rightarrow> Some (deque_append (Some v)
               (case map_of ?ds1 l of None \<Rightarrow> \<lparr>maxlen = nat mp, items = []\<rparr> | Some d \<Rightarrow> d)))"
    by blast
  have rl: "map_of rest label = None"
    using notin by (simp add: map_of_eq_None_iff)
  have "map_of ds' l =
        (case map_of (p # rest) l of
           None \<Rightarrow> map_of ds l
         | Some v \<Rightarrow> Some (deque_append (Some v)
               (case map_of ds l of None \<Rightarrow> \<lparr>maxlen = nat mp, items = []\<rparr> | Some d \<Rightarrow> d)))" for l
    using m[rule_format, of l] rl
    by (cases "l = label") (auto simp: p update_conv' split: option.splits)
  moreover have "distinct (map fst ds) \<longrightarrow> distinct (map fst ds')"
    using d by (simp add: distinct_update)
  ultimately show ?case using step r by simp
qed

lemma fill_missing_keys: "map fst (fill_missing vals ds) = map fst ds"
  by (induction ds) (auto simp: fill_missing_def)

lemma fill_missing_map_of:
  "map_of (fill_missing vals ds) l =
     map_option (\<lambda>d. if map_of vals l = None then deque_append None d else d) (map_of ds l)"
  by (induction ds) (auto simp: fill_missing_def)

lemma first_tick_snoc:
  "first_tick l (bs @ [b]) =
     (case first_tick l bs of
        Some t \<Rightarrow> Some t
      | None \<Rightarrow> if map_of b l \<noteq> None then Some (Suc (length bs)) else None)"
  by (induction bs) (auto split: option.splits)

lemma first_tick_bounds: "first_tick l bs = Some t \<Longrightarrow> 1 \<le> t \<and> t \<le> length bs"
  by (induction bs arbitrary: t) (auto split: if_splits)

lemma add_all_snoc:
  "add_all (bs @ [b]) g =
     (case add_all bs g of Inl e \<Rightarrow> Inl e | Inr g' \<Rightarrow> add_values b g')"
  by (induction bs arbitrary: g) (auto split: sum.splits)

lemma tracked_init:
  "PlotextGraph_init mp = Inr g \<Longrightarrow> 0 \<le> mp \<and> mp < 2 ^ 63 \<and> tracked (nat mp) [] g"
  by (auto simp: PlotextGraph_init_def deque_new_def tracked_def split: if_splits)

lemma timestamps_step:
  assumes a: "items ts = map int [Suc (n - cap)..<Suc n]" and m: "maxlen ts = cap"
  shows "items (deque_append (int n + 1) ts) = map int [Suc (Suc n - cap)..<Suc (Suc n)]"
proof -
  have ys: "items ts @ [int n + 1] = map int [Suc (n - cap)..<Suc (Suc n)]"
    using a by (simp add: add.commute)
  have len: "length (items ts @ [int n + 1]) = Suc (Suc n) - Suc (n - cap)"
    unfolding ys by (simp del: upt_Suc)
  have app: "items (deque_append (int n + 1) ts) =
      (if cap < length (items ts @ [int n + 1]) then tl (items ts @ [int n + 1])
       else items ts @ [int n + 1])"
    using m by (simp add: deque_append_def Let_def)
  show ?thesis
  proof (cases "cap \<le> n")
    case True
    then have lt: "Suc (n - cap) < Suc (Suc n)" by simp
    have tl: "tl (map int [Suc (n - cap)..<Suc (Suc n)]) = map int [Suc (Suc (n - cap))..<Suc (Suc n)]"
      using lt by (simp add: upt_conv_Cons del: upt_Suc)
    have e: "Suc (Suc n - cap) = Suc (Suc (n - cap))" using True by simp
    have c: "cap < length (items ts @ [int n + 1])" unfolding len using True by simp
    show ?thesis unfolding app using c ys tl e by (simp del: upt_Suc)
  next
    case False
    then have c: "\<not> cap < length (items ts @ [int n + 1])" unfolding len by simp
    have e: "Suc n - cap = n - cap" using False by simp
    show ?thesis unfolding app using c ys e by (simp del: upt_Suc)
  qed
qed

lemma tracked_step:
  assumes t: "tracked cap bs g" and d: "is_dict b"
  shows "\<exists>g'. add_values b g = Inr g' \<and> tracked cap (bs @ [b]) g'"
proof -
  from t have cb: "int cap < 2 ^ 63"
    and mp: "max_points g = int cap" and sc: "sample_count g = int (length bs)"
    and dist: "distinct (map fst (data_series g))"
    and tm: "maxlen (timestamps g) = cap"
    and ti: "items (timestamps g) = map int [Suc (length bs - cap)..<Suc (length bs)]"
    and ser: "\<And>l. case map_of (data_series g) l of
             None \<Rightarrow> first_tick l bs = None
           | Some d \<Rightarrow> maxlen d = cap \<and>
               (\<exists>t. first_tick l bs = Some t \<and>
                    length (items d) = min cap (Suc (length bs) - t))"
    by (auto simp: tracked_def)
  from d have db: "distinct (map fst b)" by (simp add: is_dict_def)
  have nn: "0 \<le> int cap" by simp
  from add_present_map_of[OF nn cb db, of "data_series g"] obtain ds' where
    ap0: "add_present (int cap) b (data_series g) = Inr ds'"
    and dd0: "distinct (map fst (data_series g)) \<longrightarrow> distinct (map fst ds')"
    and mo0: "\<forall>l. map_of ds' l =
        (case map_of b l of
           None \<Rightarrow> map_of (data_series g) l
         | Some v \<Rightarrow> Some (deque_append (Some v)
               (case map_of (data_series g) l of None \<Rightarrow> \<lparr>maxlen = nat (int cap), items = []\<rparr> | Some d \<Rightarrow> d)))"
    by blast
  have ap: "add_present (max_points g) b (data_series g) = Inr ds'" using ap0 mp by simp
  have dd: "distinct (map fst ds')" using dd0 dist by simp
  have mo: "map_of ds' l =
        (case map_of b l of
           None \<Rightarrow> map_of (data_series g) l
         | Some v \<Rightarrow> Some (deque_append (Some v)
               (case map_of (data_series g) l of None \<Rightarrow> \<lparr>maxlen = cap, items = []\<rparr> | Some d \<Rightarrow> d)))" for l
    using mo0[rule_format, of l] unfolding nat_int .
  let ?g' = "g\<lparr>sample_count := sample_count g + 1,
               timestamps := deque_append (sample_count g + 1) (timestamps g),
               data_series := fill_missing b ds'\<rparr>"
  have av: "add_values b g = Inr ?g'"
    by (simp add: add_values_def Let_def ap)
  have s1: "sample_count ?g' = int (length (bs @ [b]))" using sc by simp
  have s2: "distinct (map fst (data_series ?g'))" using dd by (simp add: fill_missing_keys)
  have s3: "maxlen (timestamps ?g') = cap" using tm by (simp add: deque_append_maxlen)
  have s4: "items (timestamps ?g') = map int [Suc (length (bs @ [b]) - cap)..<Suc (length (bs @ [b]))]"
    using timestamps_step[OF ti tm] sc by simp
  have s5: "case map_of (data_series ?g') l of
             None \<Rightarrow> first_tick l (bs @ [b]) = None
           | Some d \<Rightarrow> maxlen d = cap \<and>
               (\<exists>t. first_tick l (bs @ [b]) = Some t \<and>
                    length (items d) = min cap (Suc (length (bs @ [b])) - t))" for l
  proof (cases "map_of (data_series g) l")
    case None
    then have ft: "first_tick l bs = None" using ser[of l] by simp
    show ?thesis
      using None ft mo[of l]
      by (cases "map_of b l")
         (simp_all add: fill_missing_map_of first_tick_snoc deque_append_maxlen deque_append_length)
  next
    case (Some d0)
    then obtain t0 where m0: "maxlen d0 = cap" and ft: "first_tick l bs = Some t0"
      and len: "length (items d0) = min cap (Suc (length bs) - t0)"
      using ser[of l] by auto
    from first_tick_bounds[OF ft] have tb: "1 \<le> t0" "t0 \<le> length bs" by auto
    have le: "length (items d0) \<le> maxlen d0" using len m0 by simp
    have key: "length (items (deque_append x d0)) = min cap (Suc (Suc (length bs)) - t0)" for x
      using deque_append_length[OF le, of x] len m0 tb by arith
    show ?thesis
      using Some ft mo[of l] m0 key
      by (cases "map_of b l")
         (simp_all add: fill_missing_map_of first_tick_snoc deque_append_maxlen)
  qed
  have "tracked cap (bs @ [b]) ?g'"
    unfolding tracked_def using cb mp s1 s2 s3 s4 s5 by simp
  with av show ?thesis by blast
qed

lemma tracked_add_all:
  "tracked cap [] g0 \<Longrightarrow> \<forall>b\<in>set bs. is_dict b \<Longrightarrow>
   \<exists>g. add_all bs g0 = Inr g \<and> tracked cap bs g"
proof (induction bs rule: rev_induct)
  case Nil
  then show ?case by simp
next
  case (snoc b bs)
  then obtain g where g: "add_all bs g0 = Inr g" "tracked cap bs g" by auto
  from tracked_step[OF g(2), of b] snoc.prems(2) obtain g' where
    "add_values b g = Inr g'" "tracked cap (bs @ [b]) g'" by auto
  then show ?case using g(1) by (simp add: add_all_snoc)
qed

lemma store_after_tracked:
  assumes "0 \<le> mp" and "mp < 2 ^ 63" and "\<forall>b\<in>set bs. is_dict b"
  shows "\<exists>g. store_after mp bs = Inr g \<and> tracked (nat mp) bs g"
proof -
  obtain g0 where g0: "PlotextGraph_init mp = Inr g0"
    using assms(1,2) by (simp add: PlotextGraph_init_def deque_new_def)
  from tracked_init[OF g0] have "tracked (nat mp) [] g0" by simp
  from tracked_add_all[OF this assms(3)] show ?thesis
    by (simp add: store_after_def g0)
qed

lemma tracked_series:
  "tracked cap bs g \<Longrightarrow> map_of (data_series g) l = Some d \<Longrightarrow>
   \<exists>t. first_tick l bs = Some t \<and> 1 \<le> t \<and> t \<le> length bs \<and>
       length (items d) = min cap (Suc (length bs) - t)"
proof -
  assume t: "tracked cap bs g" and m: "map_of (data_series g) l = Some d"
  from t have "case map_of (data_series g) l of
             None \<Rightarrow> first_tick l bs = None
           | Some d \<Rightarrow> maxlen d = cap \<and>
               (\<exists>t. first_tick l bs = Some t \<and>
                    length (items d) = min cap (Suc (length bs) - t))"
    unfolding tracked_def by blast
  with m obtain t where "first_tick l bs = Some t" "length (items d) = min cap (Suc (length bs) - t)"
    by auto
  with first_tick_bounds[of l bs t] show ?thesis by auto
qed

section \<open>Properties of the latest-values display\<close>

lemma dict_update_map_of:
  "map_of (dict_update d kvs) k =
     (case map_of (rev kvs) k of Some v \<Rightarrow> Some v | None \<Rightarrow> map_of d k)"
  by (induction d kvs rule: dict_update.induct)
     (auto simp: update_conv' map_add_def split: option.splits)

lemma dict_update_keys:
  "fst ` set (dict_update d kvs) = fst ` set d \<union> fst ` set kvs"
  by (induction d kvs rule: dict_update.induct) (auto simp: dom_update image_iff)

lemma update_all_map_of:
  "\<forall>b\<in>set bs. is_dict b \<Longrightarrow>
   map_of (cv_values (update_all bs cv)) k =
     (case latest_value k bs of Some v \<Rightarrow> Some v | None \<Rightarrow> map_of (cv_values cv) k)"
proof (induction bs arbitrary: cv)
  case Nil
  then show ?case by simp
next
  case (Cons b bs)
  have "distinct (map fst b)" using Cons.prems by (simp add: is_dict_def)
  then have "map_of (rev b) = map_of b"
    by (subst map_of_inject_set) (simp_all add: rev_map[symmetric])
  then have "map_of (rev b) k = map_of b k" by simp
  then show ?case using Cons
    by (simp add: update_values_def dict_update_map_of split: option.splits)
qed

lemma update_all_keys:
  "fst ` set (cv_values (update_all bs cv)) =
     fst ` set (cv_values cv) \<union> (\<Union>b\<in>set bs. fst ` set b)"
  by (induction bs arbitrary: cv) (auto simp: update_values_def dict_update_keys)

section \<open>The claims about the series store\<close>

text \<open>
  C1. The claim says that after each update every tracked series has the same length and
  that this length is current tick - first tick + 1. Neither holds on \<^verbatim>\<open>add_values\<close>:
  a name first seen at a later tick starts with an empty deque, so two batches with the
  names \<open>a\<close> and then \<open>b\<close> leave series of lengths 2 and 1.
\<close>

theorem series_lengths_differ:
  "lengths_after 100 [[(str ''a'', Finite False 1)], [(str ''b'', Finite False 2)]]
     = Inr [(str ''a'', 2), (str ''b'', 1)]"
  by code_simp

text \<open>
  C1, as the code has it: for a store of a capacity \<open>mp\<close> that the constructor
  accepts (from 0 to \<open>2 ^ 63 - 1\<close>) and any sequence of
  batches (dicts), every update succeeds, the tick counter is the number of batches, and
  the series of every tracked name has length
  \<open>min mp (current tick - first tick of the name + 1)\<close>; so two names that first
  appeared at the same tick have series of the same length.
\<close>

theorem series_length_from_first_tick:
  assumes "0 \<le> mp" and "mp < 2 ^ 63" and "\<forall>b\<in>set bs. is_dict b"
  shows "\<exists>g. store_after mp bs = Inr g \<and> sample_count g = int (length bs) \<and>
     (\<forall>l d. map_of (data_series g) l = Some d \<longrightarrow>
        (\<exists>t. first_tick l bs = Some t \<and>
             int (length (items d)) = min mp (sample_count g - int t + 1))) \<and>
     (\<forall>l d l' d'. map_of (data_series g) l = Some d \<and> map_of (data_series g) l' = Some d' \<and>
        first_tick l bs = first_tick l' bs \<longrightarrow> length (items d) = length (items d'))"
proof -
  from store_after_tracked[OF assms] obtain g where
    g: "store_after mp bs = Inr g" and t: "tracked (nat mp) bs g" by blast
  have sc: "sample_count g = int (length bs)" using t by (simp add: tracked_def)
  have a: "\<exists>t. first_tick l bs = Some t \<and>
             int (length (items d)) = min mp (sample_count g - int t + 1)"
    if "map_of (data_series g) l = Some d" for l d
  proof -
    from tracked_series[OF t that] obtain t0 where
      f: "first_tick l bs = Some t0" and b: "1 \<le> t0" "t0 \<le> length bs"
      and len: "length (items d) = min (nat mp) (Suc (length bs) - t0)" by blast
    have "int (length (items d)) = min mp (int (length bs) - int t0 + 1)"
      using len b assms(1) by (simp add: min_def) linarith
    with f sc show ?thesis by simp
  qed
  have b: "length (items d) = length (items d')"
    if "map_of (data_series g) l = Some d" "map_of (data_series g) l' = Some d'"
       "first_tick l bs = first_tick l' bs" for l d l' d'
    using tracked_series[OF t that(1)] tracked_series[OF t that(2)] that(3) by auto
  show ?thesis using g sc a b by blast
qed

theorem series_length_from_first_tick_witness:
  "(0::int) \<le> 100 \<and> (100::int) < 2 ^ 63 \<and>
   is_dict [(str ''a'', Finite False 1)] \<and> is_dict [(str ''b'', Finite False 2)] \<and>
   (\<exists>g. store_after 100 [[(str ''a'', Finite False 1)], [(str ''b'', Finite False 2)]] = Inr g \<and>
        sample_count g = int (length [[(str ''a'', Finite False 1)], [(str ''b'', Finite False 2)]]) \<and>
     (\<forall>l d. map_of (data_series g) l = Some d \<longrightarrow>
        (\<exists>t. first_tick l [[(str ''a'', Finite False 1)], [(str ''b'', Finite False 2)]] = Some t \<and>
             int (length (items d)) = min 100 (sample_count g - int t + 1))) \<and>
     (\<forall>l d l' d'. map_of (data_series g) l = Some d \<and> map_of (data_series g) l' = Some d' \<and>
        first_tick l [[(str ''a'', Finite False 1)], [(str ''b'', Finite False 2)]] =
        first_tick l' [[(str ''a'', Finite False 1)], [(str ''b'', Finite False 2)]] \<longrightarrow>
        length (items d) = length (items d')))"
proof -
  have h: "(0::int) \<le> 100" and h2: "(100::int) < 2 ^ 63" by simp_all
  have a: "is_dict [(str ''a'', Finite False 1)]" and b: "is_dict [(str ''b'', Finite False 2)]"
    by (simp_all add: is_dict_def)
  have d: "\<forall>x\<in>set [[(str ''a'', Finite False 1)], [(str ''b'', Finite False 2)]]. is_dict x"
    using a b by simp
  show ?thesis
    by (intro conjI h h2 a b series_length_from_first_tick[OF h h2 d])
qed

text \<open>
  C6. The claim says that after capacity + 1 batches every tracked series has length
  capacity. A name that first appears in the last of three batches of a store of
  capacity 2 has a series of length 1.
\<close>

theorem late_series_shorter_than_capacity:
  "lengths_after 2 [[(str ''a'', Finite False 1)], [(str ''a'', Finite False 2)],
                    [(str ''a'', Finite False 3), (str ''b'', Finite False 1)]]
     = Inr [(str ''a'', 2), (str ''b'', 1)]"
  by code_simp

text \<open>
  C6, as the code has it, for a store of a capacity \<open>mp\<close> that the constructor accepts
  (from 0 to \<open>2 ^ 63 - 1\<close>): no series is ever longer than the capacity; the retained ticks
  are the last \<open>mp\<close> ticks (after \<open>mp + 1\<close> batches tick 1 is gone); and a series
  has exactly \<open>mp\<close> entries as soon as its name has been tracked for \<open>mp\<close> ticks.
\<close>

theorem sliding_window_capacity:
  assumes "0 \<le> mp" and "mp < 2 ^ 63" and "\<forall>b\<in>set bs. is_dict b"
  shows "\<exists>g. store_after mp bs = Inr g \<and>
     items (timestamps g) = map int [Suc (length bs - nat mp)..<Suc (length bs)] \<and>
     (\<forall>l d. map_of (data_series g) l = Some d \<longrightarrow>
        int (length (items d)) \<le> mp \<and>
        (\<forall>t. first_tick l bs = Some t \<and> mp \<le> int (length bs) - int t + 1 \<longrightarrow>
             int (length (items d)) = mp))"
proof -
  from store_after_tracked[OF assms] obtain g where
    g: "store_after mp bs = Inr g" and t: "tracked (nat mp) bs g" by blast
  have ts: "items (timestamps g) = map int [Suc (length bs - nat mp)..<Suc (length bs)]"
    using t by (simp add: tracked_def)
  have a: "int (length (items d)) \<le> mp \<and>
        (\<forall>t. first_tick l bs = Some t \<and> mp \<le> int (length bs) - int t + 1 \<longrightarrow>
             int (length (items d)) = mp)"
    if "map_of (data_series g) l = Some d" for l d
  proof -
    from tracked_series[OF t that] obtain t0 where
      f: "first_tick l bs = Some t0" and b: "1 \<le> t0" "t0 \<le> length bs"
      and len: "length (items d) = min (nat mp) (Suc (length bs) - t0)" by blast
    have "int (length (items d)) = min mp (int (length bs) - int t0 + 1)"
      using len b assms(1) by (simp add: min_def) linarith
    with f show ?thesis by auto
  qed
  show ?thesis using g ts a by blast
qed

theorem sliding_window_capacity_witness:
  "(0::int) \<le> 2 \<and> (2::int) < 2 ^ 63 \<and>
   is_dict [(str ''a'', Finite False 1)] \<and> is_dict [(str ''a'', Finite False 2)] \<and>
   is_dict [(str ''a'', Finite False 3)] \<and>
   (\<exists>g. store_after 2 [[(str ''a'', Finite False 1)], [(str ''a'', Finite False 2)],
                         [(str ''a'', Finite False 3)]] = Inr g \<and>
     items (timestamps g) =
       map int [Suc (length [[(str ''a'', Finite False 1)], [(str ''a'', Finite False 2)],
                              [(str ''a'', Finite False 3)]] - nat 2)..<
                Suc (length [[(str ''a'', Finite False 1)], [(str ''a'', Finite False 2)],
                              [(str ''a'', Finite False 3)]])] \<and>
     (\<forall>l d. map_of (data_series g) l = Some d \<longrightarrow>
        int (length (items d)) \<le> 2 \<and>
        (\<forall>t. first_tick l [[(str ''a'', Finite False 1)], [(str ''a'', Finite False 2)],
                              [(str ''a'', Finite False 3)]] = Some t \<and>
             2 \<le> int (length [[(str ''a'', Finite False 1)], [(str ''a'', Finite False 2)],
                              [(str ''a'', Finite False 3)]]) - int t + 1 \<longrightarrow>
             int (length (items d)) = 2)))"
proof -
  have h: "(0::int) \<le> 2" and h2: "(2::int) < 2 ^ 63" by simp_all
  have a: "is_dict [(str ''a'', Finite False 1)]" and b: "is_dict [(str ''a'', Finite False 2)]"
    and c: "is_dict [(str ''a'', Finite False 3)]"
    by (simp_all add: is_dict_def)
  have d: "\<forall>x\<in>set [[(str ''a'', Finite False 1)], [(str ''a'', Finite False 2)],
                       [(str ''a'', Finite False 3)]]. is_dict x"
    using a b c by simp
  show ?thesis
    by (intro conjI h h2 a b c sliding_window_capacity[OF h h2 d])
qed

text \<open>
  C8. The claim says that a capacity \<open>\<le> 0\<close> fails at construction. The constructor
  has no check of its own: capacity 0 builds a store, and that store accepts updates
  (each series then stays empty).
\<close>

theorem zero_capacity_accepted:
  "PlotextGraph_init 0 =
     Inr \<lparr>max_points = 0, data_series = [], timestamps = \<lparr>maxlen = 0, items = []\<rparr>,
          sample_count = 0\<rparr> \<and>
   lengths_after 0 [[(str ''a'', Finite False 1)]] = Inr [(str ''a'', 0)]"
  by code_simp

text \<open>
  C8, as the code has it: construction fails exactly when
  \<^verbatim>\<open>deque(maxlen=...)\<close> raises: with ValueError for a negative capacity down to
  \<open>- 2 ^ 63\<close>, and with OverflowError for a capacity below \<open>- 2 ^ 63\<close> or of at least
  \<open>2 ^ 63\<close>; a store is built for every capacity from 0 to \<open>2 ^ 63 - 1\<close>; and a store
  of capacity 0 accepts every batch and keeps every series empty.
\<close>

theorem negative_capacity_rejected:
  "(PlotextGraph_init mp = Inl ValueError) = (- (2 ^ 63) \<le> mp \<and> mp < 0) \<and>
   (PlotextGraph_init mp = Inl OverflowError) = (mp < - (2 ^ 63) \<or> 2 ^ 63 \<le> mp) \<and>
   ((\<exists>g. PlotextGraph_init mp = Inr g) = (0 \<le> mp \<and> mp < 2 ^ 63)) \<and>
   ((\<forall>b\<in>set bs. is_dict b) \<longrightarrow>
      (\<exists>g. store_after 0 bs = Inr g \<and>
           (\<forall>l d. map_of (data_series g) l = Some d \<longrightarrow> items d = [])))"
proof -
  have a: "(PlotextGraph_init mp = Inl ValueError) = (- (2 ^ 63) \<le> mp \<and> mp < 0)"
    by (auto simp: PlotextGraph_init_def deque_new_def)
  have o: "(PlotextGraph_init mp = Inl OverflowError) = (mp < - (2 ^ 63) \<or> 2 ^ 63 \<le> mp)"
    by (auto simp: PlotextGraph_init_def deque_new_def)
  have b: "(\<exists>g. PlotextGraph_init mp = Inr g) = (0 \<le> mp \<and> mp < 2 ^ 63)"
    by (auto simp: PlotextGraph_init_def deque_new_def)
  have c: "\<exists>g. store_after 0 bs = Inr g \<and>
           (\<forall>l d. map_of (data_series g) l = Some d \<longrightarrow> items d = [])"
    if d: "\<forall>b\<in>set bs. is_dict b"
  proof -
    from store_after_tracked[of 0 bs] d obtain g where
      g: "store_after 0 bs = Inr g" and t: "tracked 0 bs g" by auto
    have "items d = []" if "map_of (data_series g) l = Some d" for l d
      using tracked_series[OF t that] by auto
    with g show ?thesis by blast
  qed
  show ?thesis using a o b c by blast
qed

theorem negative_capacity_rejected_witness:
  "(PlotextGraph_init (-1) = Inl ValueError) \<and>
   (PlotextGraph_init (2 ^ 63) = Inl OverflowError) \<and>
   is_dict [(str ''a'', Finite False 1)] \<and>
   (\<exists>g. store_after 0 [[(str ''a'', Finite False 1)]] = Inr g \<and>
        (\<forall>l d. map_of (data_series g) l = Some d \<longrightarrow> items d = []))"
proof -
  have d: "\<forall>b\<in>set [[(str ''a'', Finite False 1)]]. is_dict b" by (simp add: is_dict_def)
  have v: "PlotextGraph_init (-1) = Inl ValueError"
    using negative_capacity_rejected[of "-1" "[]"] by simp
  have o: "PlotextGraph_init (2 ^ 63) = Inl OverflowError"
    using negative_capacity_rejected[of "2 ^ 63" "[]"] by simp
  from negative_capacity_rejected[of 0 "[[(str ''a'', Finite False 1)]]"] d
  have s: "\<exists>g. store_after 0 [[(str ''a'', Finite False 1)]] = Inr g \<and>
        (\<forall>l d. map_of (data_series g) l = Some d \<longrightarrow> items d = [])" by blast
  show ?thesis using v o s d by simp
qed

section \<open>The claim about the latest-values display\<close>

text \<open>
  C9. \<^verbatim>\<open>update_values\<close> merges a batch with \<^verbatim>\<open>dict.update\<close>: after any
  sequence of batches the displayed names are the earlier names together with all names
  of the batches (none is removed), the value shown for a name is the one of the latest
  batch holding it (the earlier value when no batch holds it), and one update leaves the
  value of every name that the batch omits unchanged.
\<close>

theorem displayed_names_only_grow:
  assumes "\<forall>b\<in>set bs. is_dict b"
  shows "fst ` set (cv_values (update_all bs cv)) =
           fst ` set (cv_values cv) \<union> (\<Union>b\<in>set bs. fst ` set b) \<and>
         map_of (cv_values (update_all bs cv)) k =
           (case latest_value k bs of Some v \<Rightarrow> Some v | None \<Rightarrow> map_of (cv_values cv) k) \<and>
         (map_of vals k = None \<longrightarrow>
            map_of (cv_values (update_values vals cv)) k = map_of (cv_values cv) k)"
proof -
  have "map_of (rev vals) k = None" if "map_of vals k = None"
    using that by (simp add: map_of_eq_None_iff)
  then have c: "map_of vals k = None \<longrightarrow>
            map_of (cv_values (update_values vals cv)) k = map_of (cv_values cv) k"
    by (simp add: update_values_def dict_update_map_of)
  show ?thesis using update_all_map_of[OF assms, of cv k] update_all_keys[of bs cv] c by blast
qed

theorem displayed_names_only_grow_witness:
  "is_dict [(str ''a'', Finite False 1), (str ''b'', Finite False 2)] \<and> is_dict [(str ''b'', Finite False 3)] \<and>
   map_of (cv_values (update_all [[(str ''a'', Finite False 1), (str ''b'', Finite False 2)],
                                  [(str ''b'', Finite False 3)]] \<lparr>cv_values = []\<rparr>)) (str ''a'')
     = Some (Finite False 1)"
proof -
  let ?bs = "[[(str ''a'', Finite False 1), (str ''b'', Finite False 2)], [(str ''b'', Finite False 3)]]"
  have ne: "str ''a'' \<noteq> str ''b''" by (simp add: str_def)
  have d: "\<forall>b\<in>set ?bs. is_dict b" using ne by (simp add: is_dict_def)
  have l: "latest_value (str ''a'') ?bs = Some (Finite False 1)" using ne by simp
  from displayed_names_only_grow[OF d, of "\<lparr>cv_values = []\<rparr>" "str ''a''" "[]"] l
  have "map_of (cv_values (update_all ?bs \<lparr>cv_values = []\<rparr>)) (str ''a'')
          = Some (Finite False 1)"
    by simp
  then show ?thesis using d by simp
qed

section \<open>Facts about the character classes\<close>

lemma digit_ascii: "is_digit c \<Longrightarrow> c < 1632 \<Longrightarrow> 48 \<le> c \<and> c \<le> 57"
  by (simp add: is_digit_def decimal_ranges_def split: if_splits)

lemma space_cases:
  "is_space c \<Longrightarrow>
     c \<le> 160 \<and> (c < 48 \<or> 57 < c) \<or> c = 5760 \<or> (8192 \<le> c \<and> c \<le> 8287) \<or> c = 12288"
  by (simp add: is_space_def space_ranges_def split: if_splits)

lemma digit_not_space: "is_digit c \<Longrightarrow> \<not> is_space c"
proof
  assume d: "is_digit c" and s: "is_space c"
  from space_cases[OF s] consider "c \<le> 160 \<and> (c < 48 \<or> 57 < c)" | "c = 5760"
    | "8192 \<le> c \<and> c \<le> 8287" | "c = 12288" by blast
  then show False
  proof cases
    case 1
    then show ?thesis using digit_ascii[OF d] by auto
  next
    case 2
    then show ?thesis using d by (simp add: is_digit_def decimal_ranges_def)
  next
    case 3
    then show ?thesis using d by (simp add: is_digit_def decimal_ranges_def split: if_splits)
  next
    case 4
    then show ?thesis using d by (simp add: is_digit_def decimal_ranges_def)
  qed
qed

lemma is_digit_not_special:
  "is_digit c \<Longrightarrow> c \<noteq> 45 \<and> c \<noteq> 43 \<and> c \<noteq> 46 \<and> to_lower c = c \<and>
     c \<noteq> 110 \<and> c \<noteq> 102 \<and> c \<noteq> 121"
proof -
  assume d: "is_digit c"
  show ?thesis
  proof (cases "c < 1632")
    case True
    from digit_ascii[OF d True] show ?thesis by (auto simp: to_lower_def)
  next
    case False
    then show ?thesis by (auto simp: to_lower_def)
  qed
qed

lemma digit_classes:
  "is_digit c \<Longrightarrow> \<not> is_sep c \<and> \<not> is_space c \<and> c \<noteq> 58 \<and> c \<noteq> 61"
proof -
  assume d: "is_digit c"
  have "c \<noteq> 44 \<and> c \<noteq> 59 \<and> c \<noteq> 9 \<and> c \<noteq> 58 \<and> c \<noteq> 61"
  proof (cases "c < 1632")
    case True
    from digit_ascii[OF d True] show ?thesis by auto
  next
    case False
    then show ?thesis by auto
  qed
  with digit_not_space[OF d] show ?thesis by (simp add: is_sep_def)
qed

lemma digit_is_word: "is_digit c \<Longrightarrow> is_word c"
  by (simp add: is_word_def)

lemma sep_classes:
  "c = 58 \<or> c = 61 \<Longrightarrow> \<not> is_word c \<and> \<not> is_space c \<and> \<not> is_digit c"
proof -
  assume c: "c = 58 \<or> c = 61"
  have a: "\<not> is_word 58" "\<not> is_space 58" "\<not> is_digit 58"
    by code_simp+
  have b: "\<not> is_word 61" "\<not> is_space 61" "\<not> is_digit 61"
    by code_simp+
  from c a b show ?thesis by blast
qed

lemma point_not_digit: "\<not> is_digit 46"
  by (simp add: is_digit_def decimal_ranges_def)

lemma decimal_in_le: "decimal_in c rs = Some d \<Longrightarrow> d \<le> 9"
  by (induction c rs rule: decimal_in.induct) (auto split: if_splits)

lemma digit_val_le: "digit_val c \<le> 9"
  by (auto simp: digit_val_def dest: decimal_in_le split: option.splits)

lemma digit_val_digit_char: "d < 10 \<Longrightarrow> digit_val (digit_char d) = d"
  by (simp add: digit_val_def digit_char_def decimal_ranges_def)

section \<open>Evaluating the parser\<close>

lemmas py_float_eval =
  py_float_def dec_to_double_def overflow_threshold_def nearest_double_def ilog2_def pow2_def
  round_half_even_def is_digit_def digits_val_def digit_val_def to_lower_def Let_def
  compute_floorlog str_def decimal_ranges_def

lemma py_float_1: "py_float (str ''1'') = Inr (Finite False 1)"
  by (simp add: py_float_eval)

lemma py_float_2: "py_float (str ''2'') = Inr (Finite False 2)"
  by (simp add: py_float_eval)

lemma py_float_10: "py_float (str ''10'') = Inr (Finite False 10)"
  by (simp add: py_float_eval)

lemma py_float_20: "py_float (str ''20'') = Inr (Finite False 20)"
  by (simp add: py_float_eval)

lemma py_float_30: "py_float (str ''30'') = Inr (Finite False 30)"
  by (simp add: py_float_eval)

lemma parse_line_labeled:
  "py_strip l = s \<Longrightarrow> s \<noteq> [] \<Longrightarrow> map labeled_groups (re_findall labeled_pattern s) = ms \<Longrightarrow>
   ms \<noteq> [] \<Longrightarrow> parse_line p l = labeled_values ms"
  by (simp add: parse_line_def Let_def)

lemma parse_line_positional:
  "py_strip l = s \<Longrightarrow> s \<noteq> [] \<Longrightarrow> re_findall labeled_pattern s = [] \<Longrightarrow>
   re_split split_pattern s = parts \<Longrightarrow> parse_line p l = positional_values p parts"
  by (simp add: parse_line_def Let_def)

lemma parse_a1: "parse_line p (str ''a:1'') = [(str ''a'', Finite False 1)]"
proof -
  have s: "py_strip (str ''a:1'') = str ''a:1''" by code_simp
  have f: "map labeled_groups (re_findall labeled_pattern (str ''a:1'')) = [(str ''a'', str ''1'')]"
    by code_simp
  have n: "str ''a:1'' \<noteq> []" by (simp add: str_def)
  have "parse_line p (str ''a:1'') = labeled_values [(str ''a'', str ''1'')]"
    by (rule parse_line_labeled[OF s n f]) simp
  also have "\<dots> = [(str ''a'', Finite False 1)]"
    by (simp add: labeled_values_def py_float_1)
  finally show ?thesis .
qed

section \<open>The claims about the application and the link\<close>

lemma loop_body_edge:
  "loop_body p s = (s', ev) \<Longrightarrow>
     (ev = [] \<and> disconnected s' = disconnected s) \<or>
     (\<exists>l. ev = [ProcessLine l] \<and> disconnected s' = disconnected s) \<or>
     (ev = [LogError] \<and> disconnected s' = disconnected s) \<or>
     (ev = [ShowDisconnected] \<and> \<not> disconnected s \<and> disconnected s') \<or>
     (ev = [ShowReconnected] \<and> disconnected s \<and> \<not> disconnected s') \<or>
     (ev = [ShowDisconnected, ShowReconnected] \<and> \<not> disconnected s \<and> \<not> disconnected s')"
  by (auto simp: loop_body_def Let_def mark_disconnected_def try_reconnect_def drop_connection_def
      split: if_splits read_outcome.splits prod.splits)

lemma read_serial_loop_edge:
  "read_serial_loop ps s = (s', evs) \<Longrightarrow> edge_triggered (disconnected s) evs"
proof (induction ps arbitrary: s s' evs)
  case Nil
  then show ?case by simp
next
  case (Cons p ps)
  show ?case
  proof (cases "running p")
    case False
    then show ?thesis using Cons.prems by simp
  next
    case True
    obtain s1 ev where b: "loop_body p s = (s1, ev)" by (cases "loop_body p s")
    obtain s2 evs2 where r: "read_serial_loop ps s1 = (s2, evs2)" by (cases "read_serial_loop ps s1")
    have e: "evs = ev @ evs2" using Cons.prems True b r by simp
    from Cons.IH[OF r] have ih: "edge_triggered (disconnected s1) evs2" .
    from loop_body_edge[OF b] ih show ?thesis unfolding e by auto
  qed
qed

text \<open>
  C5. With a successful initial connect, a line read, a failed read and a successful
  reconnect, the loop shows exactly one disconnect and then one reconnect (the whole
  trace is given for the line \<open>1\<close>); while reconnect attempts keep failing the
  disconnect is shown once only; and for every sequence of passes, whatever the initial
  connect gave, the notifications are edge-triggered: a disconnect is shown only while
  connected and a reconnect only while disconnected.
\<close>

theorem link_notifications_edge_triggered:
  "notifications (snd (on_mount True [read_ok l, read_fail, reconnect_at 1002 True]))
     = [ShowDisconnected, ShowReconnected] \<and>
   snd (on_mount True [read_ok (str ''1''), read_fail, reconnect_at 1002 True])
     = [LogConnected, ProcessLine (str ''1''), ShowDisconnected, ShowReconnected] \<and>
   notifications (snd (on_mount True
       [read_ok (str ''1''), read_fail, reconnect_at 1002 False, reconnect_at 1003 False,
        reconnect_at 1004 False]))
     = [ShowDisconnected] \<and>
   edge_triggered False (snd (on_mount c ps))"
proof -
  have s1: "py_strip (str ''1'') = str ''1''" by code_simp
  have n1: "str ''1'' \<noteq> []" by (simp add: str_def)
  have a: "notifications (snd (on_mount True [read_ok l, read_fail, reconnect_at 1002 True]))
     = [ShowDisconnected, ShowReconnected]"
    by (simp add: on_mount_def connect_serial_def read_ok_def read_fail_def reconnect_at_def
        loop_body_def mark_disconnected_def try_reconnect_def drop_connection_def
        reconnect_interval_def notifications_def Let_def)
  have b: "snd (on_mount True [read_ok (str ''1''), read_fail, reconnect_at 1002 True])
     = [LogConnected, ProcessLine (str ''1''), ShowDisconnected, ShowReconnected]"
    by (simp add: on_mount_def connect_serial_def read_ok_def read_fail_def reconnect_at_def
        loop_body_def mark_disconnected_def try_reconnect_def drop_connection_def
        reconnect_interval_def s1 n1 Let_def)
  have c: "notifications (snd (on_mount True
       [read_ok (str ''1''), read_fail, reconnect_at 1002 False, reconnect_at 1003 False,
        reconnect_at 1004 False]))
     = [ShowDisconnected]"
    by (simp add: on_mount_def connect_serial_def read_ok_def read_fail_def reconnect_at_def
        loop_body_def mark_disconnected_def try_reconnect_def drop_connection_def
        reconnect_interval_def notifications_def s1 n1 Let_def)
  obtain s0 ev0 where c0: "connect_serial c
       \<lparr>serial_conn = None, disconnected = False, last_reconnect_attempt = 0\<rparr> = (s0, ev0)"
    by (cases "connect_serial c \<lparr>serial_conn = None, disconnected = False, last_reconnect_attempt = 0\<rparr>")
  obtain s evs where r: "read_serial_loop ps (s0\<lparr>disconnected := False, last_reconnect_attempt := 0\<rparr>) = (s, evs)"
    by (cases "read_serial_loop ps (s0\<lparr>disconnected := False, last_reconnect_attempt := 0\<rparr>)")
  have ev0: "ev0 = [LogConnected] \<or> ev0 = [LogConnectError]"
    using c0 by (auto simp: connect_serial_def split: if_splits)
  from read_serial_loop_edge[OF r] have "edge_triggered False evs" by simp
  with ev0 have d: "edge_triggered False (snd (on_mount c ps))"
    by (auto simp: on_mount_def c0 r)
  show ?thesis using a b c d by blast
qed

text \<open>
  C7. The claim says that the clear action empties every series and resets the tick
  counter. \<^verbatim>\<open>action_clear\<close> clears the log widget only: after the line \<open>a:1\<close> and
  a clear, the store still has tick 1 and one sample for \<open>a\<close>.
\<close>

theorem clear_keeps_series:
  "map_sum id (store_view \<circ> action_clear)
     (app_after 100 [((str ''12:00:00.000'', str ''2026-01-01T12:00:00''), str ''a:1'')])
     = Inr (1, [(str ''a'', 1)])"
  by (simp add: app_after_def compose_def PlotextGraph_init_def deque_new_def process_line_def
      parse_a1 add_values_def fill_missing_def deque_append_def update_values_def
      store_view_def series_lengths_def action_clear_def Let_def)

text \<open>
  C7, as the code has it: the clear action empties the serial log and leaves the graph
  (every series, the retained ticks and the tick counter), the latest values, the session
  data and the set of known names unchanged.
\<close>

theorem action_clear_only_log:
  "serial_log (action_clear a) = [] \<and> graph (action_clear a) = graph a \<and>
   current (action_clear a) = current a \<and> session_data (action_clear a) = session_data a \<and>
   all_labels (action_clear a) = all_labels a"
  by (simp add: action_clear_def)

section \<open>Properties of the matcher\<close>

lemma first_some_Some:
  "first_some f xs = Some y \<Longrightarrow> \<exists>x\<in>set xs. f x = Some y"
  by (induction xs) (auto split: option.splits)

lemma first_some_hd:
  "f x = Some y \<Longrightarrow> first_some f (x # xs) = Some y"
  by simp

lemma countdown_set: "set (countdown lo hi) = {k. lo \<le> k \<and> k \<le> hi}"
  by (auto simp: countdown_def)

lemma countdown_Cons: "lo \<le> hi \<Longrightarrow> countdown lo hi = hi # rev [lo..<hi]"
  by (simp add: countdown_def)

lemma take_run:
  "k \<le> length (takeWhile P s) \<Longrightarrow> list_all P (take k s) \<and> length (take k s) = k"
proof -
  assume k: "k \<le> length (takeWhile P s)"
  have "take k s = take k (takeWhile P s @ dropWhile P s)" by simp
  also have "\<dots> = take k (takeWhile P s)" using k by (simp del: takeWhile_dropWhile_id)
  finally have e: "take k s = take k (takeWhile P s)" .
  have "set (take k (takeWhile P s)) \<subseteq> set (takeWhile P s)" by (rule set_take_subset)
  then have "list_all P (take k s)" unfolding e by (auto simp: list_all_iff dest: set_takeWhileD)
  moreover have "length (take k s) = k" unfolding e using k by simp
  ultimately show ?thesis by simp
qed

lemma at_most_le: "at_most q n \<le> n"
  by (cases q) simp_all

lemma at_most_mono: "k \<le> at_most q n \<Longrightarrow> k \<le> at_most q k"
  by (cases q) auto

lemma match_here_pieces:
  "match_here p s = Some ps \<Longrightarrow> list_all2 piece_ok p ps \<and> (\<exists>rest. s = concat ps @ rest)"
proof (induction p arbitrary: s ps)
  case Nil
  then show ?case by simp
next
  case (Cons a as)
  let ?n = "length (takeWhile (in_class (fst a)) s)"
  from Cons.prems obtain k where
    k: "k \<in> set (countdown (at_least (snd a)) (at_most (snd a) ?n))"
    and m: "map_option ((#) (take k s)) (match_here as (drop k s)) = Some ps"
    by (auto dest!: first_some_Some)
  from m obtain ps' where ps': "match_here as (drop k s) = Some ps'" and ps: "ps = take k s # ps'"
    by auto
  from k have lo: "at_least (snd a) \<le> k" and hi: "k \<le> at_most (snd a) ?n"
    by (auto simp: countdown_set)
  from hi at_most_le[of "snd a" ?n] have kn: "k \<le> ?n" by simp
  from take_run[OF kn] have t: "list_all (in_class (fst a)) (take k s)" "length (take k s) = k"
    by auto
  have pk: "piece_ok a (take k s)"
    using t lo at_most_mono[OF hi] by (simp add: piece_ok_def)
  from Cons.IH[OF ps'] obtain rest where
    ih: "list_all2 piece_ok as ps'" and r: "drop k s = concat ps' @ rest" by blast
  have "take k s @ drop k s = concat ps @ rest" unfolding r ps by simp
  then have e: "s = concat ps @ rest" by simp
  have l: "list_all2 piece_ok (a # as) ps" unfolding ps using pk ih by simp
  from e have "\<exists>rest. s = concat ps @ rest" by (rule exI)
  with l show ?case by (rule conjI)
qed

lemma re_findall_matches:
  "ps \<in> set (re_findall p s) \<Longrightarrow> \<exists>pre s'. s = pre @ s' \<and> match_here p s' = Some ps"
proof (induction p s rule: re_findall.induct)
  case (1 p)
  then show ?case by (auto split: option.splits)
next
  case (2 p c cs)
  show ?case
  proof (cases "match_here p (c # cs)")
    case None
    with 2 obtain pre s' where "cs = pre @ s'" "match_here p s' = Some ps" by auto
    then have "c # cs = (c # pre) @ s'" by simp
    with \<open>match_here p s' = Some ps\<close> show ?thesis by blast
  next
    case (Some qs)
    with 2 have "ps = qs \<or> ps \<in> set (re_findall p (drop (length (concat qs) - 1) cs))" by auto
    then show ?thesis
    proof
      assume "ps = qs"
      with Some have "c # cs = [] @ (c # cs) \<and> match_here p (c # cs) = Some ps" by simp
      then show ?thesis by blast
    next
      assume "ps \<in> set (re_findall p (drop (length (concat qs) - 1) cs))"
      with 2 Some obtain pre s' where
        d: "drop (length (concat qs) - 1) cs = pre @ s'" and m: "match_here p s' = Some ps" by auto
      have "c # cs = (c # take (length (concat qs) - 1) cs @ pre) @ s'"
        using d by (metis append_Cons append_assoc append_take_drop_id)
      with m show ?thesis by blast
    qed
  qed
qed

lemma re_search_match:
  "re_search p s = Some tok \<Longrightarrow>
   \<exists>pre s' ps. s = pre @ s' \<and> match_here p s' = Some ps \<and> tok = concat ps"
proof (induction p s rule: re_search.induct)
  case (1 p)
  then show ?case by auto
next
  case (2 p c cs)
  show ?case
  proof (cases "match_here p (c # cs)")
    case None
    with 2 obtain pre s' ps where "cs = pre @ s'" "match_here p s' = Some ps" "tok = concat ps"
      by auto
    then have "c # cs = (c # pre) @ s' \<and> match_here p s' = Some ps \<and> tok = concat ps" by simp
    then show ?thesis by blast
  next
    case (Some qs)
    with 2 have "c # cs = [] @ (c # cs) \<and> match_here p (c # cs) = Some qs \<and> tok = concat qs"
      by simp
    then show ?thesis by blast
  qed
qed

lemma number_pieces:
  assumes "list_all2 piece_ok number_pattern ps"
  shows "number_token (concat ps)"
proof -
  from assms obtain sg d1 dot d2 where ps: "ps = [sg, d1, dot, d2]"
    and a: "piece_ok ([Lit 45, Lit 43], Opt) sg"
    and b: "piece_ok ([Digit], Star) d1"
    and c: "piece_ok ([Lit 46], Opt) dot"
    and d: "piece_ok ([Digit], Plus) d2"
    by (auto simp: number_pattern_def list_all2_Cons1)
  have sg: "sg = [] \<or> sg = [45] \<or> sg = [43]"
    using a by (cases sg) (auto simp: piece_ok_def in_class_def)
  have dot: "dot = [] \<or> dot = [46]"
    using c by (cases dot) (auto simp: piece_ok_def in_class_def)
  have d1: "list_all is_digit d1" using b by (simp add: piece_ok_def in_class_def list_all_iff)
  have d2: "list_all is_digit d2" "d2 \<noteq> []"
    using d by (auto simp: piece_ok_def in_class_def list_all_iff)
  show ?thesis unfolding number_token_def ps using sg dot d1 d2 by auto
qed

lemma foldl_digits_bound:
  "list_all is_digit ds \<Longrightarrow>
   foldl (\<lambda>a c. 10 * a + digit_val c) a ds < (a + 1) * 10 ^ length ds"
proof (induction ds arbitrary: a)
  case Nil
  then show ?case by simp
next
  case (Cons c ds)
  from Cons.prems have r: "list_all is_digit ds" and c: "is_digit c" by simp_all
  have d: "digit_val c \<le> 9" by (rule digit_val_le)
  from Cons.IH[OF r, of "10 * a + digit_val c"]
  have "foldl (\<lambda>a c. 10 * a + digit_val c) (10 * a + digit_val c) ds
          < (10 * a + digit_val c + 1) * 10 ^ length ds" .
  also have "\<dots> \<le> (10 * a + 10) * 10 ^ length ds"
    using d by (intro mult_right_mono) auto
  also have "\<dots> = (a + 1) * 10 ^ length (c # ds)" by (simp add: algebra_simps)
  finally show ?case by simp
qed

lemma digits_val_bound: "list_all is_digit ds \<Longrightarrow> digits_val ds < 10 ^ length ds"
  using foldl_digits_bound[of ds 0] by (simp add: digits_val_def)

lemma takeWhile_all: "list_all P xs \<Longrightarrow> takeWhile P (xs @ ys) = xs @ takeWhile P ys"
  by (induction xs) auto

lemma dropWhile_all: "list_all P xs \<Longrightarrow> dropWhile P (xs @ ys) = dropWhile P ys"
  by (induction xs) auto

lemma py_float_body:
  assumes d1: "list_all is_digit d1" and dot: "dot = [] \<or> dot = [46]"
    and d2: "list_all is_digit d2" and ne: "d2 \<noteq> []"
    and sp: "split_sign tok = (neg, d1 @ dot @ d2)"
  shows "py_float tok =
           Inr (dec_to_double neg (digits_val (d1 @ d2)) (if dot = [] then 0 else length d2))"
proof -
  let ?body = "d1 @ dot @ d2"
  have lastd: "is_digit (last ?body)" using d2 ne by (simp add: list_all_iff)
  have bne: "?body \<noteq> []" using ne by simp
  have "last (map to_lower ?body) = to_lower (last ?body)" by (rule last_map[OF bne])
  then have ll: "last (map to_lower ?body) = last ?body"
    using is_digit_not_special[OF lastd] by simp
  have n1: "map to_lower ?body \<noteq> str ''nan''"
  proof
    assume "map to_lower ?body = str ''nan''"
    then have "last (map to_lower ?body) = 110" by (simp add: str_def)
    with ll lastd is_digit_not_special[of "last ?body"] show False by simp
  qed
  have n2: "map to_lower ?body \<noteq> str ''inf''"
  proof
    assume "map to_lower ?body = str ''inf''"
    then have "last (map to_lower ?body) = 102" by (simp add: str_def)
    with ll lastd is_digit_not_special[of "last ?body"] show False by simp
  qed
  have n3: "map to_lower ?body \<noteq> str ''infinity''"
  proof
    assume "map to_lower ?body = str ''infinity''"
    then have "last (map to_lower ?body) = 121" by (simp add: str_def)
    with ll lastd is_digit_not_special[of "last ?body"] show False by simp
  qed
  from dot show ?thesis
  proof
    assume z: "dot = []"
    have all: "list_all is_digit (d1 @ d2)" using d1 d2 by simp
    have tw: "takeWhile is_digit (d1 @ d2) = d1 @ d2"
      using all by (simp add: list_all_iff)
    have dw: "dropWhile is_digit (d1 @ d2) = []"
      using all by (simp add: list_all_iff)
    show ?thesis
      using sp n1 n2 n3 ne unfolding py_float_def z by (simp add: tw dw Let_def)
  next
    assume z: "dot = [46]"
    have nd: "\<not> is_digit 46" by (rule point_not_digit)
    have tw: "takeWhile is_digit (d1 @ 46 # d2) = d1"
      using takeWhile_all[OF d1, of "46 # d2"] nd by simp
    have dw: "dropWhile is_digit (d1 @ 46 # d2) = 46 # d2"
      using dropWhile_all[OF d1, of "46 # d2"] nd by simp
    show ?thesis
      using sp n1 n2 n3 ne d2 unfolding py_float_def z by (simp add: tw dw Let_def)
  qed
qed

lemma decimal_bound:
  assumes d1: "list_all is_digit d1" and d2: "list_all is_digit d2"
  shows "of_nat (digits_val (d1 @ d2)) / 10 ^ (if dot = [] then 0 else length d2)
           < (10::rat) ^ length (d1 @ dot @ d2)"
proof -
  have all: "list_all is_digit (d1 @ d2)" using d1 d2 by simp
  have "digits_val (d1 @ d2) < 10 ^ length (d1 @ d2)" by (rule digits_val_bound[OF all])
  then have "(of_nat (digits_val (d1 @ d2)) :: rat) < of_nat (10 ^ length (d1 @ d2))"
    by (simp only: of_nat_less_iff)
  then have b: "(of_nat (digits_val (d1 @ d2)) :: rat) < 10 ^ length d1 * 10 ^ length d2"
    by (simp add: power_add)
  show ?thesis
  proof (cases "dot = []")
    case True
    then show ?thesis using b by (simp add: power_add)
  next
    case False
    from b have "(of_nat (digits_val (d1 @ d2)) :: rat) / 10 ^ length d2 < 10 ^ length d1"
      by (simp add: pos_divide_less_eq)
    also have "(10::rat) ^ length d1 \<le> 10 ^ length (d1 @ dot @ d2)"
      by (rule power_increasing) simp_all
    finally show ?thesis using False by simp
  qed
qed

lemma py_float_number_token:
  assumes "number_token tok"
  shows "\<exists>neg n k. py_float tok = Inr (dec_to_double neg n k) \<and>
           of_nat n / 10 ^ k < (10::rat) ^ length tok"
proof -
  from assms obtain sg d1 dot d2 where tok: "tok = sg @ d1 @ dot @ d2"
    and sg: "sg = [] \<or> sg = [45] \<or> sg = [43]" and d1: "list_all is_digit d1"
    and dot: "dot = [] \<or> dot = [46]" and d2: "list_all is_digit d2" and ne: "d2 \<noteq> []"
    unfolding number_token_def by blast
  let ?body = "d1 @ dot @ d2"
  have le: "(10::rat) ^ length ?body \<le> 10 ^ length tok"
    unfolding tok by (rule power_increasing) simp_all
  have "\<exists>neg. split_sign tok = (neg, ?body)"
  proof -
    consider "sg = []" | "sg = [45]" | "sg = [43]" using sg by blast
    then show ?thesis
    proof cases
      case 1
      obtain c cs where b: "?body = c # cs" using ne by (cases ?body) auto
      have "is_digit c \<or> c = 46"
      proof (cases d1)
        case Nil
        then show ?thesis using b dot d2 ne by (cases d2) auto
      next
        case (Cons x xs)
        then show ?thesis using b d1 by auto
      qed
      then have "c \<noteq> 45 \<and> c \<noteq> 43"
        using is_digit_not_special[of c] by auto
      then have "split_sign tok = (False, ?body)" unfolding tok 1 using b by simp
      then show ?thesis by blast
    next
      case 2
      have "split_sign tok = (True, ?body)" unfolding tok 2 by simp
      then show ?thesis by blast
    next
      case 3
      have "split_sign tok = (False, ?body)" unfolding tok 3 by simp
      then show ?thesis by blast
    qed
  qed
  then obtain neg where sp: "split_sign tok = (neg, ?body)" by blast
  note pf = py_float_body[OF d1 dot d2 ne sp]
  from decimal_bound[OF d1 d2, of dot] le
  have "of_nat (digits_val (d1 @ d2)) / 10 ^ (if dot = [] then 0 else length d2)
           < (10::rat) ^ length tok" by (rule less_le_trans)
  with pf show ?thesis by blast
qed

lemma dec_to_double_not_NaN: "dec_to_double neg n k \<noteq> NaN"
  by (simp add: dec_to_double_def)

lemma dec_to_double_finite:
  assumes "of_nat n / 10 ^ k < (10::rat) ^ m" and "m \<le> 308"
  shows "\<exists>x. dec_to_double neg n k = Finite neg x"
proof -
  have "(10::rat) ^ m \<le> 10 ^ 308" using assms(2) by (intro power_increasing) simp_all
  also have "(10::rat) ^ 308 < overflow_threshold" by (simp add: overflow_threshold_def)
  finally have "of_nat n / 10 ^ k < overflow_threshold" using assms(1) by simp
  then show ?thesis by (simp add: dec_to_double_def)
qed

lemma labeled_pieces:
  assumes "match_here labeled_pattern s = Some ps"
  shows "\<exists>w tok c. labeled_groups ps = (w, tok) \<and> number_token tok \<and> length tok \<le> length s \<and>
           (c = 58 \<or> c = 61) \<and> c \<in> set s"
proof -
  from match_here_pieces[OF assms] obtain rest where
    l: "list_all2 piece_ok labeled_pattern ps" and s: "s = concat ps @ rest" by blast
  from l obtain w s1 sep s2 num where ps: "ps = w # s1 # sep # s2 # num"
    and sep: "piece_ok ([Lit 58, Lit 61], One) sep"
    and num: "list_all2 piece_ok number_pattern num"
    by (auto simp: labeled_pattern_def list_all2_Cons1)
  from sep obtain c where c: "sep = [c]" "c = 58 \<or> c = 61"
    by (cases sep) (auto simp: piece_ok_def in_class_def)
  have g: "labeled_groups ps = (w, concat num)" unfolding ps by simp
  have "length (concat num) \<le> length (concat ps)" unfolding ps by simp
  also have "\<dots> \<le> length s" using arg_cong[OF s, of length] by simp
  finally have len: "length (concat num) \<le> length s" .
  have "c \<in> set (concat ps)" unfolding ps c by simp
  then have "c \<in> set s" using arg_cong[OF s, of set] by simp
  with g number_pieces[OF num] len c(2) show ?thesis by blast
qed

lemma labeled_match_token:
  assumes "m \<in> set (map labeled_groups (re_findall labeled_pattern s))"
  shows "number_token (snd m) \<and> length (snd m) \<le> length s"
proof -
  from assms obtain ps where ps: "ps \<in> set (re_findall labeled_pattern s)"
    and m: "m = labeled_groups ps" by auto
  from re_findall_matches[OF ps] obtain pre s' where
    s: "s = pre @ s'" and mh: "match_here labeled_pattern s' = Some ps" by blast
  from labeled_pieces[OF mh] obtain w tok where
    "labeled_groups ps = (w, tok)" "number_token tok" "length tok \<le> length s'" by blast
  then show ?thesis using m s by simp
qed

lemma no_separator_no_labeled:
  assumes "58 \<notin> set s" and "61 \<notin> set s"
  shows "re_findall labeled_pattern s = []"
proof (rule ccontr)
  assume "re_findall labeled_pattern s \<noteq> []"
  then obtain ps where "ps \<in> set (re_findall labeled_pattern s)"
    by (cases "re_findall labeled_pattern s") auto
  from re_findall_matches[OF this] obtain pre s' where
    s: "s = pre @ s'" and mh: "match_here labeled_pattern s' = Some ps" by blast
  from labeled_pieces[OF mh] obtain c where "c = 58 \<or> c = 61" "c \<in> set s'"
    by blast
  with assms s show False by auto
qed

lemma search_token:
  assumes "re_search number_pattern part = Some tok"
  shows "number_token tok \<and> length tok \<le> length part"
proof -
  from re_search_match[OF assms] obtain pre s' ps where
    p: "part = pre @ s'" and mh: "match_here number_pattern s' = Some ps" and t: "tok = concat ps"
    by blast
  from match_here_pieces[OF mh] obtain rest where
    l: "list_all2 piece_ok number_pattern ps" and s': "s' = concat ps @ rest" by blast
  have "length tok \<le> length s'" unfolding t using arg_cong[OF s', of length] by simp
  with number_pieces[OF l] t p show ?thesis by simp
qed

lemma labeled_values_foldl:
  "foldl (\<lambda>vals (label, tok).
              case py_float tok of
                Inr v \<Rightarrow> AList.update label v vals
              | Inl e \<Rightarrow> vals) acc ms = dict_update acc (labeled_bindings ms)"
proof (induction ms arbitrary: acc)
  case Nil
  then show ?case by (simp add: labeled_bindings_def map_filter_simps)
next
  case (Cons m ms)
  obtain l tok where m: "m = (l, tok)" by (cases m)
  show ?case
    using Cons.IH
    by (cases "py_float tok") (simp_all add: m labeled_bindings_def map_filter_simps)
qed

lemma positional_values_foldl:
  "foldl (\<lambda>vals (i, part).
              case re_search number_pattern part of
                None \<Rightarrow> vals
              | Some tok \<Rightarrow>
                  (case py_float tok of
                     Inr v \<Rightarrow> AList.update (pfx @ str_nat (i + 1)) v vals
                   | Inl e \<Rightarrow> vals)) acc (enumerate n parts)
     = dict_update acc (positional_bindings pfx n parts)"
proof (induction parts arbitrary: acc n)
  case Nil
  then show ?case by (simp add: positional_bindings_def map_filter_simps)
next
  case (Cons p ps)
  show ?case
  proof (cases "re_search number_pattern p")
    case None
    then show ?thesis using Cons.IH[of acc "Suc n"]
      by (simp add: positional_bindings_def map_filter_simps)
  next
    case (Some tok)
    then show ?thesis using Cons.IH[of _ "Suc n"]
      by (cases "py_float tok") (simp_all add: positional_bindings_def map_filter_simps)
  qed
qed

lemma labeled_values_eq: "labeled_values ms = dict_update [] (labeled_bindings ms)"
  unfolding labeled_values_def by (rule labeled_values_foldl)

lemma positional_values_eq: "positional_values pfx parts = dict_update [] (positional_bindings pfx 0 parts)"
  unfolding positional_values_def by (rule positional_values_foldl)

lemma update_new_key: "k \<notin> fst ` set d \<Longrightarrow> AList.update k v d = d @ [(k, v)]"
  by (induction d) auto

lemma dict_update_distinct:
  "distinct (map fst (d @ kvs)) \<Longrightarrow> dict_update d kvs = d @ kvs"
proof (induction d kvs rule: dict_update.induct)
  case (1 d)
  then show ?case by simp
next
  case (2 d k v kvs)
  then have k: "k \<notin> fst ` set d" by auto
  have "distinct (map fst ((d @ [(k, v)]) @ kvs))" using 2(2) by simp
  with 2(1) k show ?case by (simp add: update_new_key)
qed

lemma dict_update_is_dict: "is_dict d \<Longrightarrow> is_dict (dict_update d kvs)"
  by (induction d kvs rule: dict_update.induct) (auto simp: is_dict_def distinct_update)

lemma dict_update_values:
  "(k, v) \<in> set (dict_update d kvs) \<Longrightarrow> (k, v) \<in> set d \<or> (k, v) \<in> set kvs"
proof (induction d kvs rule: dict_update.induct)
  case (1 d)
  then show ?case by simp
next
  case (2 d k' v' kvs)
  from 2 have "(k, v) \<in> set (AList.update k' v' d) \<or> (k, v) \<in> set kvs" by simp
  moreover have "(k, v) \<in> set (AList.update k' v' d) \<Longrightarrow> (k, v) = (k', v') \<or> (k, v) \<in> set d"
    by (induction d) (auto split: if_splits)
  ultimately show ?case by auto
qed

section \<open>The split pattern computes the fields; the synthetic names are distinct\<close>

lemma digits_val_snoc: "digits_val (ds @ [c]) = 10 * digits_val ds + digit_val c"
  by (simp add: digits_val_def)

lemma digits_val_str_nat: "digits_val (str_nat n) = n"
proof (induction n rule: str_nat.induct)
  case (1 n)
  show ?case
  proof (cases "n < 10")
    case True
    then show ?thesis
      by (subst str_nat.simps) (simp add: digits_val_def digit_val_digit_char)
  next
    case False
    with 1 have ih: "digits_val (str_nat (n div 10)) = n div 10" by simp
    have "digits_val (str_nat n) = 10 * (n div 10) + n mod 10"
      using False ih by (subst str_nat.simps) (simp add: digits_val_snoc digit_val_digit_char)
    then show ?thesis by simp
  qed
qed

lemma str_nat_inj: "str_nat a = str_nat b \<Longrightarrow> a = b"
  using digits_val_str_nat by metis

lemma positional_bindings_Cons:
  "positional_bindings pfx n (p # ps) =
     (case re_search number_pattern p of
        None \<Rightarrow> positional_bindings pfx (Suc n) ps
      | Some tok \<Rightarrow>
          (case py_float tok of
             Inr v \<Rightarrow> (pfx @ str_nat (n + 1), v) # positional_bindings pfx (Suc n) ps
           | Inl e \<Rightarrow> positional_bindings pfx (Suc n) ps))"
  by (simp add: positional_bindings_def map_filter_simps split: option.splits sum.splits)

lemma positional_bindings_Nil: "positional_bindings pfx n [] = []"
  by (simp add: positional_bindings_def map_filter_simps)

lemma positional_source:
  "(k, v) \<in> set (positional_bindings pfx n parts) \<Longrightarrow>
   \<exists>i part tok. n \<le> i \<and> k = pfx @ str_nat (i + 1) \<and> part \<in> set parts \<and>
      re_search number_pattern part = Some tok \<and> py_float tok = Inr v"
proof (induction parts arbitrary: n)
  case Nil
  then show ?case by (simp add: positional_bindings_Nil)
next
  case (Cons p ps)
  have rest: "\<exists>i part tok. n \<le> i \<and> k = pfx @ str_nat (i + 1) \<and> part \<in> set (p # ps) \<and>
      re_search number_pattern part = Some tok \<and> py_float tok = Inr v"
    if "(k, v) \<in> set (positional_bindings pfx (Suc n) ps)"
  proof -
    from Cons.IH[OF that] obtain i part tok where
      "Suc n \<le> i" "k = pfx @ str_nat (i + 1)" "part \<in> set ps"
      "re_search number_pattern part = Some tok" "py_float tok = Inr v" by blast
    then have "n \<le> i \<and> k = pfx @ str_nat (i + 1) \<and> part \<in> set (p # ps) \<and>
      re_search number_pattern part = Some tok \<and> py_float tok = Inr v" by simp
    then show ?thesis by blast
  qed
  show ?case
  proof (cases "re_search number_pattern p")
    case None
    with Cons.prems have "(k, v) \<in> set (positional_bindings pfx (Suc n) ps)"
      by (simp add: positional_bindings_Cons)
    then show ?thesis by (rule rest)
  next
    case (Some tok)
    show ?thesis
    proof (cases "py_float tok")
      case (Inl e)
      with Some Cons.prems have "(k, v) \<in> set (positional_bindings pfx (Suc n) ps)"
        by (simp add: positional_bindings_Cons)
      then show ?thesis by (rule rest)
    next
      case (Inr v')
      with Some Cons.prems have
        "(k, v) = (pfx @ str_nat (n + 1), v') \<or> (k, v) \<in> set (positional_bindings pfx (Suc n) ps)"
        by (simp add: positional_bindings_Cons)
      then show ?thesis
      proof
        assume "(k, v) = (pfx @ str_nat (n + 1), v')"
        then have "n \<le> n \<and> k = pfx @ str_nat (n + 1) \<and> p \<in> set (p # ps) \<and>
          re_search number_pattern p = Some tok \<and> py_float tok = Inr v"
          using Some Inr by simp
        then show ?thesis by blast
      next
        assume "(k, v) \<in> set (positional_bindings pfx (Suc n) ps)"
        then show ?thesis by (rule rest)
      qed
    qed
  qed
qed

lemma positional_distinct: "distinct (map fst (positional_bindings pfx n parts))"
proof (induction parts arbitrary: n)
  case Nil
  then show ?case by (simp add: positional_bindings_Nil)
next
  case (Cons p ps)
  have new: "pfx @ str_nat (n + 1) \<notin> fst ` set (positional_bindings pfx (Suc n) ps)"
  proof
    assume "pfx @ str_nat (n + 1) \<in> fst ` set (positional_bindings pfx (Suc n) ps)"
    then obtain v where "(pfx @ str_nat (n + 1), v) \<in> set (positional_bindings pfx (Suc n) ps)"
      by auto
    from positional_source[OF this] obtain i where
      i: "Suc n \<le> i" "pfx @ str_nat (n + 1) = pfx @ str_nat (i + 1)" by blast
    then have "str_nat (n + 1) = str_nat (i + 1)" by simp
    then have "n + 1 = i + 1" by (rule str_nat_inj)
    with i(1) show False by simp
  qed
  show ?case
    using Cons.IH[of "Suc n"] new
    by (simp add: positional_bindings_Cons split: option.splits sum.splits)
qed

lemma positional_bindings_Cons':
  "positional_bindings pfx n (p # ps) =
     (case field_number p of
        None \<Rightarrow> positional_bindings pfx (Suc n) ps
      | Some v \<Rightarrow> (pfx @ str_nat (n + 1), v) # positional_bindings pfx (Suc n) ps)"
  by (simp add: positional_bindings_Cons field_number_def split: option.splits sum.splits)

lemma positional_lookup:
  "n \<le> i \<Longrightarrow>
   map_of (positional_bindings pfx n parts) (pfx @ str_nat (i + 1)) =
     (if i - n < length parts then field_number (parts ! (i - n)) else None)"
proof (induction parts arbitrary: n)
  case Nil
  then show ?case by (simp add: positional_bindings_Nil)
next
  case (Cons p ps)
  show ?case
  proof (cases "i = n")
    case True
    have none: "map_of (positional_bindings pfx (Suc n) ps) (pfx @ str_nat (n + 1)) = None"
    proof (rule ccontr)
      assume "map_of (positional_bindings pfx (Suc n) ps) (pfx @ str_nat (n + 1)) \<noteq> None"
      then obtain v where "(pfx @ str_nat (n + 1), v) \<in> set (positional_bindings pfx (Suc n) ps)"
        by (auto dest: map_of_SomeD)
      from positional_source[OF this] obtain j where
        j: "Suc n \<le> j" "pfx @ str_nat (n + 1) = pfx @ str_nat (j + 1)" by blast
      then have "str_nat (n + 1) = str_nat (j + 1)" by simp
      then have "n + 1 = j + 1" by (rule str_nat_inj)
      with j(1) show False by simp
    qed
    show ?thesis using True none
      by (simp add: positional_bindings_Cons' split: option.splits)
  next
    case False
    with Cons.prems have le: "Suc n \<le> i" by simp
    have ne: "pfx @ str_nat (n + 1) \<noteq> pfx @ str_nat (i + 1)"
    proof
      assume "pfx @ str_nat (n + 1) = pfx @ str_nat (i + 1)"
      then have "str_nat (n + 1) = str_nat (i + 1)" by simp
      then have "n + 1 = i + 1" by (rule str_nat_inj)
      with False show False by simp
    qed
    have idx: "i - n = Suc (i - Suc n)" using le by simp
    from Cons.IH[OF le] ne show ?thesis
      by (simp add: positional_bindings_Cons' idx split: option.splits)
  qed
qed

lemma in_class_sep: "in_class [Lit 44, Lit 59, Space, Lit 9] = is_sep"
  by (rule ext) (auto simp: in_class_def is_sep_def)

lemma match_split:
  "match_here split_pattern s =
     (if takeWhile is_sep s = [] then None else Some [takeWhile is_sep s])"
proof (cases "takeWhile is_sep s = []")
  case True
  then show ?thesis
    by (simp add: split_pattern_def in_class_sep countdown_def)
next
  case False
  let ?n = "length (takeWhile is_sep s)"
  have n: "Suc 0 \<le> ?n" using False by (cases "takeWhile is_sep s") auto
  have t: "take ?n s = takeWhile is_sep s" by (rule takeWhile_eq_take[symmetric])
  show ?thesis
    using False
    by (simp add: split_pattern_def in_class_sep countdown_Cons[OF n] t)
qed

lemma fields_not_Nil: "fields s \<noteq> []"
  by (subst fields.simps) (simp add: Let_def)

lemma fields_nonsep: "\<not> is_sep c \<Longrightarrow> fields (c # cs) = (c # hd (fields cs)) # tl (fields cs)"
  by (subst fields.simps, subst (2 3) fields.simps) (simp add: Let_def)

lemma fields_sep: "is_sep c \<Longrightarrow> fields (c # cs) = [] # fields (dropWhile is_sep cs)"
  by (subst fields.simps) (simp add: Let_def)

lemma split_from_fields:
  "split_from split_pattern cur s = (cur @ hd (fields s)) # tl (fields s)"
proof (induction "split_pattern" cur s rule: split_from.induct)
  case (1 cur)
  show ?case by (subst fields.simps, subst (2) fields.simps) (simp add: Let_def)
next
  case (2 cur c cs)
  show ?case
  proof (cases "is_sep c")
    case False
    then have m: "match_here split_pattern (c # cs) = None" by (simp add: match_split)
    from 2(1)[OF m] m False show ?thesis by (simp add: fields_nonsep)
  next
    case True
    let ?w = "takeWhile is_sep (c # cs)"
    have m: "match_here split_pattern (c # cs) = Some [?w]"
      using True by (simp add: match_split)
    have ne: "concat [?w] \<noteq> []" using True by simp
    have d: "drop (length (concat [?w]) - 1) cs = dropWhile is_sep cs"
      using True by (simp add: dropWhile_eq_drop)
    from 2(3)[OF m ne] have
      "split_from split_pattern [] (dropWhile is_sep cs) = fields (dropWhile is_sep cs)"
      unfolding d using fields_not_Nil[of "dropWhile is_sep cs"] by simp
    then show ?thesis
      using m ne d True by (simp add: fields_sep)
  qed
qed

lemma re_split_fields: "re_split split_pattern s = fields s"
  unfolding re_split_def split_from_fields using fields_not_Nil[of s] by simp

lemma fields_length: "f \<in> set (fields s) \<Longrightarrow> length f \<le> length s"
proof (induction s arbitrary: f rule: fields.induct)
  case (1 s)
  let ?r = "dropWhile (\<lambda>c. \<not> is_sep c) s"
  have tw: "length (takeWhile (\<lambda>c. \<not> is_sep c) s) \<le> length s" by (rule length_takeWhile_le)
  show ?case
  proof (cases "?r = []")
    case True
    with 1(2) have "f = takeWhile (\<lambda>c. \<not> is_sep c) s"
      by (subst (asm) fields.simps) (simp add: Let_def)
    with tw show ?thesis by simp
  next
    case False
    with 1(2) have "f = takeWhile (\<lambda>c. \<not> is_sep c) s \<or> f \<in> set (fields (dropWhile is_sep ?r))"
      by (subst (asm) fields.simps) (auto simp: Let_def split: if_splits)
    then show ?thesis
    proof
      assume "f = takeWhile (\<lambda>c. \<not> is_sep c) s"
      with tw show ?thesis by simp
    next
      assume "f \<in> set (fields (dropWhile is_sep ?r))"
      from 1(1)[OF refl refl False this] have "length f \<le> length (dropWhile is_sep ?r)" .
      also have "\<dots> \<le> length ?r" by (rule length_dropWhile_le)
      also have "\<dots> \<le> length s" by (rule length_dropWhile_le)
      finally show ?thesis .
    qed
  qed
qed

lemma py_strip_length: "length (py_strip l) \<le> length l"
proof -
  have "length (py_strip l) \<le> length (dropWhile is_space l)"
    unfolding py_strip_def using length_dropWhile_le[of is_space "rev (dropWhile is_space l)"]
    by simp
  also have "\<dots> \<le> length l" by (rule length_dropWhile_le)
  finally show ?thesis .
qed

lemma py_strip_blank: "list_all is_space l \<Longrightarrow> py_strip l = []"
proof -
  assume "list_all is_space l"
  then have d: "dropWhile is_space l = []" by (simp add: list_all_iff)
  show ?thesis unfolding py_strip_def d by simp
qed

lemma dropWhile_keep: "xs \<noteq> [] \<Longrightarrow> \<not> P (hd xs) \<Longrightarrow> dropWhile P xs = xs"
  by (cases xs) auto

lemma py_strip_id:
  "s \<noteq> [] \<Longrightarrow> \<not> is_space (hd s) \<Longrightarrow> \<not> is_space (last s) \<Longrightarrow> py_strip s = s"
proof -
  assume ne: "s \<noteq> []" and h: "\<not> is_space (hd s)" and l: "\<not> is_space (last s)"
  have a: "dropWhile is_space s = s" using ne h by (rule dropWhile_keep)
  have r: "rev s \<noteq> []" using ne by simp
  have "hd (rev s) = last s" using ne by (simp add: hd_rev)
  then have "\<not> is_space (hd (rev s))" using l by simp
  with r have b: "dropWhile is_space (rev s) = rev s" by (rule dropWhile_keep)
  show ?thesis by (simp add: py_strip_def a b)
qed

lemma findall_labeled_Nil: "re_findall labeled_pattern [] = []"
  by (rule no_separator_no_labeled) simp_all

lemma parse_line_cases:
  "parse_line pfx line =
     (if map labeled_groups (re_findall labeled_pattern (py_strip line)) \<noteq> []
      then dict_update [] (labeled_bindings (map labeled_groups
             (re_findall labeled_pattern (py_strip line))))
      else positional_bindings pfx 0 (fields (py_strip line)))"
proof (cases "py_strip line = []")
  case True
  have "positional_bindings pfx 0 (fields []) = []"
    by (subst fields.simps) (simp add: Let_def positional_bindings_Cons positional_bindings_Nil
        number_pattern_def countdown_def in_class_def)
  then show ?thesis using True
    by (simp add: parse_line_def findall_labeled_Nil del: re_findall.simps)
next
  case False
  have "dict_update [] (positional_bindings pfx 0 (fields (py_strip line)))
          = positional_bindings pfx 0 (fields (py_strip line))"
    using dict_update_distinct[of "[]" "positional_bindings pfx 0 (fields (py_strip line))"]
      positional_distinct[of pfx 0 "fields (py_strip line)"] by simp
  then show ?thesis using False
    by (simp add: parse_line_def Let_def labeled_values_eq positional_values_eq re_split_fields)
qed

lemma labeled_bindings_all:
  "\<forall>m\<in>set ms. \<exists>v. py_float (snd m) = Inr v \<Longrightarrow> map fst (labeled_bindings ms) = map fst ms"
proof (induction ms)
  case Nil
  then show ?case by (simp add: labeled_bindings_def map_filter_simps)
next
  case (Cons m ms)
  obtain l tok where m: "m = (l, tok)" by (cases m)
  from Cons.prems obtain v where v: "py_float tok = Inr v" by (auto simp: m)
  from Cons have "map fst (labeled_bindings ms) = map fst ms" by simp
  then show ?case using v by (simp add: m labeled_bindings_def map_filter_simps)
qed

lemma labeled_bindings_source:
  "(k, v) \<in> set (labeled_bindings ms) \<Longrightarrow> \<exists>tok. (k, tok) \<in> set ms \<and> py_float tok = Inr v"
proof (induction ms)
  case Nil
  then show ?case by (simp add: labeled_bindings_def map_filter_simps)
next
  case (Cons m ms)
  obtain l tok where m: "m = (l, tok)" by (cases m)
  show ?case
  proof (cases "py_float tok")
    case (Inl e)
    with Cons.prems have "(k, v) \<in> set (labeled_bindings ms)"
      by (simp add: m labeled_bindings_def map_filter_simps)
    from Cons.IH[OF this] show ?thesis by auto
  next
    case (Inr v')
    with Cons.prems have "(k, v) = (l, v') \<or> (k, v) \<in> set (labeled_bindings ms)"
      by (simp add: m labeled_bindings_def map_filter_simps)
    then show ?thesis
    proof
      assume "(k, v) = (l, v')"
      then have "(k, tok) \<in> set (m # ms) \<and> py_float tok = Inr v" using Inr m by simp
      then show ?thesis by blast
    next
      assume "(k, v) \<in> set (labeled_bindings ms)"
      from Cons.IH[OF this] show ?thesis by auto
    qed
  qed
qed

lemma findall_tokens_convert:
  "map fst (labeled_bindings (map labeled_groups (re_findall labeled_pattern s)))
     = map fst (map labeled_groups (re_findall labeled_pattern s))"
proof (rule labeled_bindings_all, rule ballI)
  fix m assume "m \<in> set (map labeled_groups (re_findall labeled_pattern s))"
  from labeled_match_token[OF this] have "number_token (snd m)" by simp
  from py_float_number_token[OF this] show "\<exists>v. py_float (snd m) = Inr v" by blast
qed

lemma search_token_converts:
  "re_search number_pattern part = Some tok \<Longrightarrow> \<exists>v. py_float tok = Inr v"
proof -
  assume "re_search number_pattern part = Some tok"
  from search_token[OF this] have "number_token tok" by simp
  from py_float_number_token[OF this] show ?thesis by blast
qed

lemma parse_line_is_dict: "is_dict (parse_line pfx line)"
proof -
  have "is_dict ([] :: batch)" by (simp add: is_dict_def)
  then have "is_dict (dict_update [] kvs)" for kvs :: batch by (rule dict_update_is_dict)
  moreover have "is_dict (positional_bindings pfx 0 parts)" for parts
    unfolding is_dict_def by (rule positional_distinct)
  ultimately show ?thesis by (simp add: parse_line_cases)
qed

lemma parse_line_source:
  assumes "(k, v) \<in> set (parse_line pfx line)"
  shows "\<exists>tok. number_token tok \<and> length tok \<le> length line \<and> py_float tok = Inr v"
proof (cases "map labeled_groups (re_findall labeled_pattern (py_strip line)) = []")
  case False
  let ?ms = "map labeled_groups (re_findall labeled_pattern (py_strip line))"
  from assms False have "(k, v) \<in> set (dict_update [] (labeled_bindings ?ms))"
    by (simp add: parse_line_cases)
  then have "(k, v) \<in> set (labeled_bindings ?ms)" by (auto dest: dict_update_values)
  from labeled_bindings_source[OF this] obtain tok where
    t: "(k, tok) \<in> set ?ms" and f: "py_float tok = Inr v" by blast
  from labeled_match_token[OF t] have "number_token tok" "length tok \<le> length (py_strip line)"
    by simp_all
  with py_strip_length[of line] f show ?thesis by (meson le_trans)
next
  case True
  with assms have "(k, v) \<in> set (positional_bindings pfx 0 (fields (py_strip line)))"
    by (simp add: parse_line_cases)
  from positional_source[OF this] obtain part tok where
    p: "part \<in> set (fields (py_strip line))" and s: "re_search number_pattern part = Some tok"
    and f: "py_float tok = Inr v" by blast
  from search_token[OF s] have n: "number_token tok" and l: "length tok \<le> length part" by simp_all
  from l fields_length[OF p] py_strip_length[of line] have "length tok \<le> length line" by simp
  with n f show ?thesis by blast
qed

section \<open>A line of digits\<close>

lemma match_tail_empty:
  "match_here [([Lit 46], Opt), ([Digit], Plus)] [] = None"
  by (simp add: countdown_def)

lemma match_tail_digit:
  "is_digit c \<Longrightarrow> match_here [([Lit 46], Opt), ([Digit], Plus)] [c] = Some [[], [c]]"
  using is_digit_not_special[of c] by (simp add: countdown_def in_class_def)

lemma match_number_digits:
  assumes d: "list_all is_digit ds" and ne: "ds \<noteq> []"
  shows "match_here number_pattern ds = Some [[], butlast ds, [], [last ds]]"
proof -
  let ?n = "length ds"
  let ?tail = "[([Lit 46], Opt), ([Digit], Plus)]"
  have hd: "is_digit (hd ds)" using d ne by (cases ds) auto
  have sign: "takeWhile (in_class [Lit 45, Lit 43]) ds = []"
    using ne hd is_digit_not_special[of "hd ds"] by (cases ds) (auto simp: in_class_def)
  have run: "takeWhile (in_class [Digit]) ds = ds"
    using d by (simp add: in_class_def list_all_iff)
  have n: "Suc (?n - Suc 0) = ?n" using ne by (cases ds) auto
  have "countdown 0 (Suc (?n - Suc 0)) = Suc (?n - Suc 0) # (?n - Suc 0) # rev [0..<?n - Suc 0]"
    by (simp add: countdown_def)
  then have cd: "countdown 0 ?n = ?n # (?n - Suc 0) # rev [0..<?n - Suc 0]"
    unfolding n .
  have "ds = butlast ds @ [last ds]" using ne by simp
  then have "drop (length (butlast ds)) ds = [last ds]"
    by (metis append_eq_conv_conj)
  then have last: "drop (?n - Suc 0) ds = [last ds]" by simp
  have bl: "take (?n - Suc 0) ds = butlast ds" by (simp add: butlast_conv_take)
  have ld: "is_digit (last ds)" using d ne by (simp add: list_all_iff)
  have step: "match_here (([Digit], Star) # ?tail) ds = Some [butlast ds, [], [last ds]]"
    by (subst match_here.simps(2))
       (simp add: run cd last bl match_tail_empty match_tail_digit[OF ld] del: match_here.simps)
  show ?thesis
    unfolding number_pattern_def
    by (subst match_here.simps(2)) (simp add: sign step countdown_def del: match_here.simps)
qed

lemma search_number_digits:
  "list_all is_digit ds \<Longrightarrow> ds \<noteq> [] \<Longrightarrow> re_search number_pattern ds = Some ds"
proof -
  assume d: "list_all is_digit ds" and ne: "ds \<noteq> []"
  obtain c cs where c: "ds = c # cs" using ne by (cases ds) auto
  have "re_search number_pattern ds = Some (concat [[], butlast ds, [], [last ds]])"
    using match_number_digits[OF d ne] unfolding c by simp
  then show ?thesis using ne by simp
qed

lemma fields_no_sep: "list_all (\<lambda>c. \<not> is_sep c) s \<Longrightarrow> fields s = [s]"
  by (subst fields.simps) (simp add: Let_def list_all_iff)

lemma py_float_digits:
  assumes d: "list_all is_digit ds" and ne: "ds \<noteq> []"
  shows "py_float ds = Inr (dec_to_double False (digits_val ds) 0)"
proof -
  have hd: "is_digit (hd ds)" using d ne by (cases ds) auto
  have sp: "split_sign ds = (False, [] @ [] @ ds)"
    using ne hd is_digit_not_special[of "hd ds"] by (cases ds) auto
  have e: "list_all is_digit []" by simp
  from py_float_body[OF e _ d ne sp] show ?thesis by simp
qed

lemma digits_line:
  assumes d: "list_all is_digit ds" and ne: "ds \<noteq> []"
  shows "parse_line pfx ds = [(pfx @ [49], dec_to_double False (digits_val ds) 0)]"
proof -
  have hd: "is_digit (hd ds)" using d ne by (cases ds) auto
  have ld: "is_digit (last ds)" using d ne by (simp add: list_all_iff)
  have s: "py_strip ds = ds"
    using ne hd ld digit_classes by (intro py_strip_id) auto
  have "58 \<notin> set ds" "61 \<notin> set ds"
    using d digit_classes by (auto simp: list_all_iff)
  then have f: "re_findall labeled_pattern ds = []" by (rule no_separator_no_labeled)
  have "list_all (\<lambda>c. \<not> is_sep c) ds" using d digit_classes by (auto simp: list_all_iff)
  then have fs: "fields ds = [ds]" by (rule fields_no_sep)
  have k: "str_nat (Suc 0) = [49]" by code_simp
  show ?thesis
    by (simp add: parse_line_cases s f fs positional_bindings_Cons positional_bindings_Nil
        search_number_digits[OF d ne] py_float_digits[OF d ne] k)
qed

lemma foldl_zeros:
  "foldl (\<lambda>a c. 10 * a + digit_val c) a (replicate n (48)) = a * 10 ^ n"
  by (induction n arbitrary: a) (simp_all add: digit_val_def decimal_ranges_def)

lemma match_labeled_digits:
  assumes d1: "list_all is_digit d1" and n1: "d1 \<noteq> []"
    and d2: "list_all is_digit d2" and n2: "d2 \<noteq> []"
    and sep: "sep = 58 \<or> sep = 61"
  shows "match_here labeled_pattern (d1 @ sep # d2)
           = Some [d1, [], [sep], [], [], butlast d2, [], [last d2]]"
proof -
  have hd2: "is_digit (hd d2)" using d2 n2 by (cases d2) auto
  have sp2: "takeWhile (in_class [Space]) d2 = []"
    using n2 hd2 digit_classes[of "hd d2"] by (cases d2) (auto simp: in_class_def)
  have s4: "match_here (([Space], Star) # number_pattern) d2
              = Some [[], [], butlast d2, [], [last d2]]"
    by (subst match_here.simps(2))
       (simp add: sp2 countdown_def match_number_digits[OF d2 n2] del: match_here.simps)
  have ic: "in_class [Lit 58, Lit 61] sep"
    using sep by (auto simp: in_class_def)
  have cl: "takeWhile (in_class [Lit 58, Lit 61]) d2 = []"
    using n2 hd2 digit_classes[of "hd d2"] by (cases d2) (auto simp: in_class_def)
  have s3: "match_here (([Lit 58, Lit 61], One) # ([Space], Star) # number_pattern)
              (sep # d2) = Some [[sep], [], [], butlast d2, [], [last d2]]"
    by (subst match_here.simps(2)) (simp add: ic cl countdown_def s4 del: match_here.simps)
  have sp1: "\<not> in_class [Space] sep"
    using sep_classes[OF sep] by (simp add: in_class_def)
  have s2: "match_here (([Space], Star) # ([Lit 58, Lit 61], One) # ([Space], Star)
              # number_pattern) (sep # d2) = Some [[], [sep], [], [], butlast d2, [], [last d2]]"
    by (subst match_here.simps(2)) (simp add: sp1 countdown_def s3 del: match_here.simps)
  have w: "list_all (in_class [Word]) d1"
    using d1 digit_is_word by (auto simp: list_all_iff in_class_def)
  have "takeWhile (in_class [Word]) (d1 @ sep # d2) = d1 @ takeWhile (in_class [Word]) (sep # d2)"
    by (rule takeWhile_all[OF w])
  then have run: "takeWhile (in_class [Word]) (d1 @ sep # d2) = d1"
    using sep_classes[OF sep] by (simp add: in_class_def)
  have len: "Suc 0 \<le> length d1" using n1 by (cases d1) auto
  show ?thesis
    unfolding labeled_pattern_def append_Cons append_Nil
    by (subst match_here.simps(2))
       (simp add: run countdown_Cons[OF len] s2 del: match_here.simps)
qed

section \<open>Lines used as examples\<close>

lemma py_float_12: "py_float [49, 50] = Inr (Finite False 12)"
  by (simp add: py_float_eval)

lemma py_float_7: "py_float (str ''7'') = Inr (Finite False 7)"
  by (simp add: py_float_eval)

lemma example_no_labeled: "re_findall labeled_pattern (py_strip (str ''10 xx 30'')) = []"
  by code_simp

lemma example_fields:
  "re_split split_pattern (py_strip (str ''10 xx 30'')) = [str ''10'', str ''xx'', str ''30'']"
  by code_simp

lemma example_bindings:
  "positional_bindings pfx 0 [str ''10'', str ''xx'', str ''30'']
     = [(pfx @ str ''1'', Finite False 10), (pfx @ str ''3'', Finite False 30)]"
proof -
  have n1: "re_search number_pattern (str ''10'') = Some (str ''10'')" by code_simp
  have n2: "re_search number_pattern (str ''xx'') = None" by code_simp
  have n3: "re_search number_pattern (str ''30'') = Some (str ''30'')" by code_simp
  have k1: "str_nat (Suc 0) = str ''1''" and k3: "str_nat (Suc (Suc (Suc 0))) = str ''3''"
    by code_simp+
  show ?thesis
    by (simp add: positional_bindings_Cons positional_bindings_Nil n1 n2 n3 py_float_10 py_float_30
        k1 k3 del: re_search.simps)
qed

lemma nbsp_no_labeled: "re_findall labeled_pattern (py_strip [49, 160, 50]) = []"
  by code_simp

lemma nbsp_fields: "re_split split_pattern (py_strip [49, 160, 50]) = [[49], [50]]"
  by code_simp

lemma nbsp_bindings:
  "positional_bindings pfx 0 [[49], [50]]
     = [(pfx @ str ''1'', Finite False 1), (pfx @ str ''2'', Finite False 2)]"
proof -
  have n1: "re_search number_pattern [49] = Some [49]" by code_simp
  have n2: "re_search number_pattern [50] = Some [50]" by code_simp
  have k1: "str_nat (Suc 0) = str ''1''" and k2: "str_nat (Suc (Suc 0)) = str ''2''"
    by code_simp+
  have f1: "py_float [49] = Inr (Finite False 1)" and f2: "py_float [50] = Inr (Finite False 2)"
    by (simp_all add: py_float_eval)
  show ?thesis
    by (simp add: positional_bindings_Cons positional_bindings_Nil n1 n2 f1 f2
        k1 k2 del: re_search.simps)
qed

section \<open>The claims about the two grammars\<close>

text \<open>
  C2. When the labeled pattern matches the stripped line at least once, with the matches
  \<open>ms\<close> (name and numeric token, in order): the batch is the dict built from the
  bindings of these matches alone; every match contributes a binding (no token fails to
  convert); the value of a name is the one of its last match; and the names of the batch
  are exactly the names of the matches, so the positional grammar adds nothing, whatever
  the prefix of the synthetic names. The line is any sequence of code points, and the
  classes \<^verbatim>\<open>\w\<close>, \<^verbatim>\<open>\s\<close> and \<^verbatim>\<open>\d\<close> are the Unicode ones. The witness is
  the line \<open>a:1,a:2\<close>, which yields \<open>a = 2\<close>, and the line of the code points
  72, 246, 104, 101, 58, 32, 49, 50 (a name with the letter o with diaeresis, a colon, a
  blank and 12), which yields that name with the value 12.
\<close>

theorem labeled_matches_only:
  assumes "map labeled_groups (re_findall labeled_pattern (py_strip line)) = ms" and "ms \<noteq> []"
  shows "parse_line pfx line = dict_update [] (labeled_bindings ms) \<and>
         map fst (labeled_bindings ms) = map fst ms \<and>
         map_of (parse_line pfx line) k = map_of (rev (labeled_bindings ms)) k \<and>
         fst ` set (parse_line pfx line) = fst ` set ms"
proof -
  have a: "parse_line pfx line = dict_update [] (labeled_bindings ms)"
    using assms by (simp add: parse_line_cases)
  have b: "map fst (labeled_bindings ms) = map fst ms"
    using findall_tokens_convert[of "py_strip line"] assms(1) by simp
  have c: "map_of (parse_line pfx line) k = map_of (rev (labeled_bindings ms)) k"
    unfolding a by (simp add: dict_update_map_of split: option.splits)
  have "fst ` set (parse_line pfx line) = fst ` set (labeled_bindings ms)"
    unfolding a by (simp add: dict_update_keys)
  also have "\<dots> = set (map fst (labeled_bindings ms))" by simp
  also have "\<dots> = fst ` set ms" unfolding b by simp
  finally have d: "fst ` set (parse_line pfx line) = fst ` set ms" .
  show ?thesis using a b c d by blast
qed

theorem labeled_matches_only_witness:
  "map labeled_groups (re_findall labeled_pattern (py_strip (str ''a:1,a:2'')))
     = [(str ''a'', str ''1''), (str ''a'', str ''2'')] \<and>
   [(str ''a'', str ''1''), (str ''a'', str ''2'')] \<noteq> [] \<and>
   parse_line CH (str ''a:1,a:2'') = [(str ''a'', Finite False 2)] \<and>
   map labeled_groups (re_findall labeled_pattern (py_strip [72, 246, 104, 101, 58, 32, 49, 50]))
     = [([72, 246, 104, 101], [49, 50])] \<and>
   parse_line CH [72, 246, 104, 101, 58, 32, 49, 50] = [([72, 246, 104, 101], Finite False 12)]"
proof -
  have m: "map labeled_groups (re_findall labeled_pattern (py_strip (str ''a:1,a:2'')))
     = [(str ''a'', str ''1''), (str ''a'', str ''2'')]" by code_simp
  have n: "[(str ''a'', str ''1''), (str ''a'', str ''2'')] \<noteq> ([] :: (pystr \<times> pystr) list)"
    by simp
  have b: "labeled_bindings [(str ''a'', str ''1''), (str ''a'', str ''2'')]
             = [(str ''a'', Finite False 1), (str ''a'', Finite False 2)]"
    by (simp add: labeled_bindings_def map_filter_simps py_float_1 py_float_2)
  from labeled_matches_only[OF m n, of CH "str ''a''"]
  have "parse_line CH (str ''a:1,a:2'')
          = dict_update [] (labeled_bindings [(str ''a'', str ''1''), (str ''a'', str ''2'')])"
    by (rule conjunct1)
  then have p: "parse_line CH (str ''a:1,a:2'') = [(str ''a'', Finite False 2)]"
    unfolding b by simp
  have m2: "map labeled_groups
              (re_findall labeled_pattern (py_strip [72, 246, 104, 101, 58, 32, 49, 50]))
     = [([72, 246, 104, 101], [49, 50])]" by code_simp
  have n2: "[([72, 246, 104, 101], [49, 50])] \<noteq> ([] :: (pystr \<times> pystr) list)" by simp
  have b2: "labeled_bindings [([72, 246, 104, 101], [49, 50])]
              = [([72, 246, 104, 101], Finite False 12)]"
    by (simp add: labeled_bindings_def map_filter_simps py_float_12)
  from labeled_matches_only[OF m2 n2, of CH "[72, 246, 104, 101]"]
  have "parse_line CH [72, 246, 104, 101, 58, 32, 49, 50]
          = dict_update [] (labeled_bindings [([72, 246, 104, 101], [49, 50])])"
    by (rule conjunct1)
  then have p2: "parse_line CH [72, 246, 104, 101, 58, 32, 49, 50]
                   = [([72, 246, 104, 101], Finite False 12)]"
    unfolding b2 by simp
  show ?thesis by (intro conjI m n p m2 p2)
qed

text \<open>
  C3. The claim says that the synthetic name is \<open>CH<index>\<close>.
  \<^verbatim>\<open>serial_plotter.py\<close>, which the claim cites, names the fields
  \<open>Kanal_<index>\<close>: there the line \<open>10 xx 30\<close> yields \<open>Kanal_1 = 10\<close> and
  \<open>Kanal_3 = 30\<close>, and no name \<open>CH1\<close>.
\<close>

theorem positional_names_of_serial_plotter:
  "parse_line Kanal (str ''10 xx 30'')
     = [(str ''Kanal_1'', Finite False 10), (str ''Kanal_3'', Finite False 30)] \<and>
   map_of (parse_line Kanal (str ''10 xx 30'')) (str ''CH1'') = None"
proof -
  have k: "Kanal @ str ''1'' = str ''Kanal_1''" "Kanal @ str ''3'' = str ''Kanal_3''"
    by (simp_all add: Kanal_def str_def)
  have "parse_line Kanal (str ''10 xx 30'')
          = positional_bindings Kanal 0 (fields (py_strip (str ''10 xx 30'')))"
    by (simp add: parse_line_cases example_no_labeled)
  also have "fields (py_strip (str ''10 xx 30'')) = [str ''10'', str ''xx'', str ''30'']"
    using example_fields by (simp only: re_split_fields)
  finally have p: "parse_line Kanal (str ''10 xx 30'')
     = [(str ''Kanal_1'', Finite False 10), (str ''Kanal_3'', Finite False 30)]"
    by (simp only: example_bindings k)
  have "map_of (parse_line Kanal (str ''10 xx 30'')) (str ''CH1'') = None"
    unfolding p by (simp add: str_def)
  with p show ?thesis by (rule conjI)
qed

text \<open>
  C3, as the code has it. When the labeled pattern has no match in the stripped line: the
  split pattern cuts the line into the fields of the spec (the runs between separator
  runs, empty fields at a leading or trailing separator included; whitespace is the
  Unicode class); the batch binds, in order, field \<open>i\<close> (1-based) to the prefix followed
  by \<open>i\<close>, with the first number found in the field, where the prefix is \<open>CH\<close> in
  \<^verbatim>\<open>SerialPlotterTUI.py\<close> and \<^verbatim>\<open>serial_plotter_tui.py\<close> and \<open>Kanal_\<close> in
  \<^verbatim>\<open>serial_plotter.py\<close>; a field without a number is skipped and later fields keep
  their positions; looking the name of index \<open>i + 1\<close> up gives the number of field \<open>i\<close>
  (counted from 0) and nothing when that field has no number or does not exist; and a
  number that is found always converts. The witness is the line \<open>10 xx 30\<close>, which
  yields \<open>CH1 = 10\<close> and \<open>CH3 = 30\<close>, and the line of 1, a no-break space and 2,
  which yields \<open>CH1 = 1\<close> and \<open>CH2 = 2\<close>.
\<close>

theorem positional_fields:
  assumes "re_findall labeled_pattern (py_strip line) = []"
  shows "re_split split_pattern (py_strip line) = fields (py_strip line) \<and>
         parse_line pfx line = positional_bindings pfx 0 (fields (py_strip line)) \<and>
         map_of (parse_line pfx line) (pfx @ str_nat (i + 1)) =
           (if i < length (fields (py_strip line))
            then field_number (fields (py_strip line) ! i) else None) \<and>
         (\<forall>part tok. re_search number_pattern part = Some tok \<longrightarrow> (\<exists>v. py_float tok = Inr v))"
proof -
  have p: "parse_line pfx line = positional_bindings pfx 0 (fields (py_strip line))"
    using assms by (simp add: parse_line_cases)
  have l: "map_of (parse_line pfx line) (pfx @ str_nat (i + 1)) =
           (if i < length (fields (py_strip line))
            then field_number (fields (py_strip line) ! i) else None)"
    unfolding p using positional_lookup[of 0 i pfx "fields (py_strip line)"] by simp
  show ?thesis using p l re_split_fields[of "py_strip line"] search_token_converts by blast
qed

theorem positional_fields_witness:
  "re_findall labeled_pattern (py_strip (str ''10 xx 30'')) = [] \<and>
   parse_line CH (str ''10 xx 30'')
     = [(str ''CH1'', Finite False 10), (str ''CH3'', Finite False 30)] \<and>
   re_findall labeled_pattern (py_strip [49, 160, 50]) = [] \<and>
   parse_line CH [49, 160, 50] = [(str ''CH1'', Finite False 1), (str ''CH2'', Finite False 2)]"
proof -
  have k: "CH @ str ''1'' = str ''CH1''" "CH @ str ''2'' = str ''CH2''"
    "CH @ str ''3'' = str ''CH3''"
    by (simp_all add: CH_def str_def)
  from positional_fields[OF example_no_labeled, of CH 0] have
    "re_split split_pattern (py_strip (str ''10 xx 30'')) = fields (py_strip (str ''10 xx 30''))"
    and p: "parse_line CH (str ''10 xx 30'')
              = positional_bindings CH 0 (fields (py_strip (str ''10 xx 30'')))"
    by blast+
  then have fs: "fields (py_strip (str ''10 xx 30'')) = [str ''10'', str ''xx'', str ''30'']"
    using example_fields by simp
  have a: "parse_line CH (str ''10 xx 30'')
             = [(str ''CH1'', Finite False 10), (str ''CH3'', Finite False 30)]"
    unfolding p fs by (simp only: example_bindings k)
  from positional_fields[OF nbsp_no_labeled, of CH 0] have
    "re_split split_pattern (py_strip [49, 160, 50]) = fields (py_strip [49, 160, 50])"
    and p2: "parse_line CH [49, 160, 50] = positional_bindings CH 0 (fields (py_strip [49, 160, 50]))"
    by blast+
  then have fs2: "fields (py_strip [49, 160, 50]) = [[49], [50]]"
    using nbsp_fields by simp
  have b: "parse_line CH [49, 160, 50]
             = [(str ''CH1'', Finite False 1), (str ''CH2'', Finite False 2)]"
    unfolding p2 fs2 by (simp only: nbsp_bindings k)
  show ?thesis by (intro conjI example_no_labeled a nbsp_no_labeled b)
qed

text \<open>
  C4. The claim says that no parsed value is an infinity. A run of 309 digits is a
  valid numeric token, and \<^verbatim>\<open>float\<close> rounds \<open>2 * 10 ^ 308\<close> to \<^verbatim>\<open>inf\<close>: the
  line of the digit 2 followed by 308 zeros yields \<open>CH1 = inf\<close>.
\<close>

theorem huge_number_is_infinite:
  "parse_line CH (str ''2'' @ replicate 308 48) = [(str ''CH1'', Infinite False)]"
proof -
  let ?ds = "50 # replicate 308 48"
  have z: "is_digit 48" and t: "is_digit 50" by (simp_all add: is_digit_def decimal_ranges_def)
  have d: "list_all is_digit ?ds" using z t by (simp add: list_all_iff)
  have two: "digit_val 50 = 2" by (simp add: digit_val_def decimal_ranges_def)
  have "digits_val ?ds = foldl (\<lambda>a c. 10 * a + digit_val c) 2 (replicate 308 48)"
    unfolding digits_val_def by (simp only: foldl_Cons two mult_zero_right add_0)
  then have v: "digits_val ?ds = 2 * 10 ^ 308"
    by (simp only: foldl_zeros)
  have i: "dec_to_double False (2 * 10 ^ 308) 0 = Infinite False"
    by (simp add: dec_to_double_def overflow_threshold_def)
  have k: "CH @ [49] = str ''CH1''" by (simp add: CH_def str_def)
  have s: "str ''2'' @ replicate 308 48 = ?ds" by (simp add: str_def)
  have "parse_line CH ?ds = [(CH @ [49], dec_to_double False (digits_val ?ds) 0)]"
    by (rule digits_line[OF d]) simp
  then show ?thesis unfolding s v i k .
qed

text \<open>
  C4, as the code has it: \<^verbatim>\<open>parse_line\<close> returns a batch for every line, a line
  being any sequence of code points (the model is a total function, and the ValueError
  branch of \<^verbatim>\<open>float\<close> is never taken: every labeled match and every number found
  in a field converts); a line of whitespace, in the Unicode sense of \<^verbatim>\<open>strip\<close>,
  yields the empty batch; the batch is a dict; no value is NaN; and every value is finite
  when the line has at most 308 characters.
\<close>

theorem parse_line_total:
  "(list_all is_space line \<longrightarrow> parse_line pfx line = []) \<and>
   is_dict (parse_line pfx line) \<and>
   (\<forall>k v. (k, v) \<in> set (parse_line pfx line) \<longrightarrow>
      v \<noteq> NaN \<and> (length line \<le> 308 \<longrightarrow> (\<exists>neg x. v = Finite neg x))) \<and>
   map fst (labeled_bindings (map labeled_groups (re_findall labeled_pattern s)))
     = map fst (map labeled_groups (re_findall labeled_pattern s)) \<and>
   (\<forall>tok. re_search number_pattern part = Some tok \<longrightarrow> (\<exists>v. py_float tok = Inr v))"
proof -
  have a: "list_all is_space line \<longrightarrow> parse_line pfx line = []"
    by (simp add: parse_line_def py_strip_blank)
  have c: "v \<noteq> NaN \<and> (length line \<le> 308 \<longrightarrow> (\<exists>neg x. v = Finite neg x))"
    if "(k, v) \<in> set (parse_line pfx line)" for k v
  proof -
    from parse_line_source[OF that] obtain tok where
      n: "number_token tok" and l: "length tok \<le> length line" and f: "py_float tok = Inr v"
      by blast
    from py_float_number_token[OF n] f obtain neg m j where
      v: "v = dec_to_double neg m j" and b: "of_nat m / 10 ^ j < (10::rat) ^ length tok"
      by auto
    have "\<exists>neg x. v = Finite neg x" if "length line \<le> 308"
    proof -
      from that l have "length tok \<le> 308" by simp
      from dec_to_double_finite[OF b this, of neg] v show ?thesis by blast
    qed
    with v dec_to_double_not_NaN show ?thesis by simp
  qed
  show ?thesis
    using a parse_line_is_dict[of pfx line] c findall_tokens_convert[of s]
      search_token_converts[of part]
    by blast
qed

theorem parse_line_total_witness:
  "list_all is_space [32, 160, 8195, 9] \<and> parse_line CH [32, 160, 8195, 9] = [] \<and>
   (str ''a'', Finite False 1) \<in> set (parse_line CH (str ''a:1'')) \<and>
   length (str ''a:1'') \<le> 308 \<and>
   re_search number_pattern (str ''x7'') = Some (str ''7'') \<and>
   py_float (str ''7'') = Inr (Finite False 7)"
proof -
  have s: "list_all is_space [32, 160, 8195, 9]" by code_simp
  from parse_line_total[of "[32, 160, 8195, 9]" CH] s
  have e: "parse_line CH [32, 160, 8195, 9] = []" by blast
  have m: "(str ''a'', Finite False 1) \<in> set (parse_line CH (str ''a:1''))"
    by (simp add: parse_a1)
  have l: "length (str ''a:1'') \<le> 308" by (simp add: str_def)
  have r: "re_search number_pattern (str ''x7'') = Some (str ''7'')" by code_simp
  show ?thesis by (intro conjI s e m l r py_float_7)
qed

text \<open>
  C10. The identifier of the labeled pattern accepts digits: a line made of a run of
  digits, a colon or an equals sign and a run of digits has exactly one labeled match,
  with the first run as its name, and \<^verbatim>\<open>parse_line\<close> returns that one binding and
  no synthetic name, whatever the prefix of the synthetic names (\<open>CH\<close> or
  \<open>Kanal_\<close>). The witness is the line \<open>10:20\<close>, which yields the name \<open>10\<close> with
  the value 20.
\<close>

theorem digit_label_is_labeled:
  assumes d1: "list_all is_digit d1" and n1: "d1 \<noteq> []"
    and d2: "list_all is_digit d2" and n2: "d2 \<noteq> []"
    and sep: "sep = 58 \<or> sep = 61"
  shows "map labeled_groups (re_findall labeled_pattern (d1 @ sep # d2)) = [(d1, d2)] \<and>
         parse_line pfx (d1 @ sep # d2) = [(d1, dec_to_double False (digits_val d2) 0)]"
proof -
  let ?s = "d1 @ sep # d2"
  let ?ps = "[d1, [], [sep], [], [], butlast d2, [], [last d2]]"
  obtain c cs where c: "d1 = c # cs" using n1 by (cases d1) auto
  have m: "match_here labeled_pattern (c # cs @ sep # d2) = Some ?ps"
    using match_labeled_digits[OF d1 n1 d2 n2 sep] unfolding c by simp
  have cat: "concat ?ps = c # cs @ sep # d2" using n2 unfolding c by simp
  have "re_findall labeled_pattern (c # cs @ sep # d2) = [?ps]"
    by (simp add: m cat findall_labeled_Nil del: match_here.simps re_findall.simps(1) concat.simps)
  then have f: "re_findall labeled_pattern ?s = [?ps]" unfolding c by simp
  have g: "map labeled_groups (re_findall labeled_pattern ?s) = [(d1, d2)]"
    unfolding f using n2 by simp
  have hd: "is_digit (hd ?s)" using d1 n1 by (cases d1) auto
  have ld: "is_digit (last ?s)" using d2 n2 by (simp add: list_all_iff)
  have s: "py_strip ?s = ?s"
    using hd ld digit_classes by (intro py_strip_id) auto
  have "parse_line pfx ?s = labeled_values [(d1, d2)]"
    by (rule parse_line_labeled[OF s _ g]) simp_all
  also have "\<dots> = [(d1, dec_to_double False (digits_val d2) 0)]"
    by (simp add: labeled_values_def py_float_digits[OF d2 n2])
  finally show ?thesis using g by simp
qed

theorem digit_label_is_labeled_witness:
  "list_all is_digit (str ''10'') \<and> str ''10'' \<noteq> [] \<and> list_all is_digit (str ''20'') \<and>
   str ''20'' \<noteq> [] \<and>
   map labeled_groups (re_findall labeled_pattern (str ''10:20'')) = [(str ''10'', str ''20'')] \<and>
   parse_line CH (str ''10:20'') = [(str ''10'', Finite False 20)] \<and>
   parse_line Kanal (str ''10:20'') = [(str ''10'', Finite False 20)]"
proof -
  have a: "list_all is_digit (str ''10'')" and b: "list_all is_digit (str ''20'')"
    by (simp_all add: is_digit_def decimal_ranges_def str_def)
  have na: "str ''10'' \<noteq> []" and nb: "str ''20'' \<noteq> []" by (simp_all add: str_def)
  have v: "dec_to_double False (digits_val (str ''20'')) 0 = Finite False 20"
    by (simp add: py_float_eval)
  have c: "58 = (58 :: int) \<or> 58 = (61 :: int)" by simp
  have s: "str ''10'' @ 58 # str ''20'' = str ''10:20''" by (simp add: str_def)
  from digit_label_is_labeled[OF a na b nb c, of CH]
  have m: "map labeled_groups (re_findall labeled_pattern (str ''10:20'')) = [(str ''10'', str ''20'')]"
    and p: "parse_line CH (str ''10:20'') = [(str ''10'', Finite False 20)]"
    unfolding s v by blast+
  from digit_label_is_labeled[OF a na b nb c, of Kanal]
  have q: "parse_line Kanal (str ''10:20'') = [(str ''10'', Finite False 20)]"
    unfolding s v by blast
  show ?thesis by (intro conjI a na b nb m p q)
qed

end
